theory Spec2Isabelle
  imports Main "HOL-Library.Sublist" "HOL-Library.AList" "HOL-Library.Multiset"
begin

section \<open>File trees\<close>

text \<open>
  The program synchronises one directory tree into another. A tree is modelled as the
  program sees it through \<open>glob\<close>, \<open>os.path\<close>, \<open>os\<close> and \<open>shutil\<close>: a regular file
  carries its bytes and the metadata that \<open>shutil.copy2\<close> preserves (modification time
  and permission bits), a directory carries its entries in the order \<open>os.scandir\<close>
  yields them. Symbolic links are left out, as the source does (sync.py, line 30).
  A relative path is the list of its segments; the empty list is the root itself
  (\<open>os.path.relpath\<close> gives \<open>'.'\<close> for it). The source tree and the destination tree are
  two separate values: neither root lies inside the other.
\<close>

type_synonym name = string
type_synonym path = "name list"
type_synonym meta = "nat \<times> nat"

datatype node = File string meta | Dir "(name \<times> node) list"

datatype kind = KFile string meta | KDir

datatype oserror =
    FileNotFoundError | FileExistsError | NotADirectoryError | IsADirectoryError
  | DirectoryNotEmpty | PermissionError

datatype exn = OSError oserror | Error "oserror list" | ValueError

fun lookup :: "node \<Rightarrow> path \<Rightarrow> node option" where
  "lookup t [] = Some t"
| "lookup (File c m) (x # p) = None"
| "lookup (Dir es) (x # p) = (case map_of es x of None \<Rightarrow> None | Some c \<Rightarrow> lookup c p)"

fun kind_of :: "node \<Rightarrow> kind" where
  "kind_of (File c m) = KFile c m"
| "kind_of (Dir es) = KDir"

definition stat :: "node \<Rightarrow> path \<Rightarrow> kind option" where
  "stat t p = map_option kind_of (lookup t p)"

text \<open>\<open>os.path.isdir\<close>: false for a regular file and for a path that does not exist.\<close>

definition isdir :: "node \<Rightarrow> path \<Rightarrow> bool" where
  "isdir t p = (case lookup t p of Some (Dir es) \<Rightarrow> True | _ \<Rightarrow> False)"

text \<open>A directory never holds two entries of one name.\<close>

fun wf_node :: "node \<Rightarrow> bool" where
  "wf_node (File c m) = True"
| "wf_node (Dir es) = (distinct (map fst es) \<and> list_all (\<lambda>(x, c). wf_node c) es)"

section \<open>Enumeration: \<open>glob(root/**, recursive=True)\<close>\<close>

text \<open>
  \<open>glob._ishidden\<close>: a name is hidden when it begins with a dot. \<open>glob._rlistdir\<close> walks
  a directory in pre-order and skips every hidden name, with all that lies below it
  (the \<open>include_hidden\<close> parameter is not passed, sync.py lines 26 to 29).
  \<open>glob._glob2\<close> yields the root first, then the walk; the paths are kept relative to
  the root here, which is what \<open>os.path.relpath(p, root)\<close> makes of them (lines 36 to 39).
\<close>

definition ishidden :: "name \<Rightarrow> bool" where
  "ishidden x = (case x of [] \<Rightarrow> False | c # cs \<Rightarrow> c = CHR ''.'')"

fun rlistdir :: "node \<Rightarrow> path list" where
  "rlistdir (File c m) = []"
| "rlistdir (Dir es) =
     concat (map (\<lambda>(x, c). if ishidden x then [] else [x] # map ((#) x) (rlistdir c)) es)"

definition glob :: "node \<Rightarrow> path list" where
  "glob t = [] # rlistdir t"

definition visible :: "path \<Rightarrow> bool" where
  "visible p = list_all (\<lambda>x. \<not> ishidden x) p"

text \<open>\<open>len(Path(fp).parents)\<close>: the number of segments of a relative path.\<close>

definition depth :: "path \<Rightarrow> nat" where
  "depth fp = length fp"

section \<open>The filesystem operations\<close>

text \<open>
  \<open>at_path mk f p t\<close> walks from the root of \<open>t\<close> to the entry addressed by \<open>p\<close> and
  applies \<open>f\<close> to what stands there (\<open>None\<close> when nothing does); \<open>f\<close> answers with the
  exception it raises, if any, and with the entry as it leaves it (\<open>None\<close>: deleted).
  A regular file on the way raises \<open>NotADirectoryError\<close>; a missing directory on the way
  raises \<open>FileNotFoundError\<close>, or is created when \<open>mk\<close> holds (\<open>os.makedirs\<close>).
  The root of a tree is not deleted; a pass never addresses it.
\<close>

fun at_path ::
  "bool \<Rightarrow> (node option \<Rightarrow> exn option \<times> node option) \<Rightarrow> path \<Rightarrow> node \<Rightarrow> exn option \<times> node" where
  "at_path mk f [] t =
     (case f (Some t) of
        (e, Some t') \<Rightarrow> (e, t')
      | (Some e, None) \<Rightarrow> (Some e, t)
      | (None, None) \<Rightarrow> (Some (OSError PermissionError), t))"
| "at_path mk f (x # p) (File c m) = (Some (OSError NotADirectoryError), File c m)"
| "at_path mk f [x] (Dir es) =
     (case f (map_of es x) of
        (e, None) \<Rightarrow> (e, Dir (AList.delete x es))
      | (e, Some c) \<Rightarrow> (e, Dir (AList.update x c es)))"
| "at_path mk f (x # y # p) (Dir es) =
     (case map_of es x of
        None \<Rightarrow>
          if mk then (case at_path mk f (y # p) (Dir []) of (e, c) \<Rightarrow> (e, Dir (AList.update x c es)))
          else (Some (OSError FileNotFoundError), Dir es)
      | Some c \<Rightarrow> (case at_path mk f (y # p) c of (e, c') \<Rightarrow> (e, Dir (AList.update x c' es))))"

text \<open>\<open>os.makedirs(dst)\<close>: missing parents are created, an existing leaf raises.\<close>

fun makedirs_leaf :: "node option \<Rightarrow> exn option \<times> node option" where
  "makedirs_leaf None = (None, Some (Dir []))"
| "makedirs_leaf (Some c) = (Some (OSError FileExistsError), Some c)"

definition makedirs :: "path \<Rightarrow> node \<Rightarrow> exn option \<times> node" where
  "makedirs p t = at_path True makedirs_leaf p t"

text \<open>
  \<open>shutil.copy2(src, dst)\<close> where \<open>src\<close> is a regular file: when \<open>dst\<close> is a directory the
  file is written inside it under the base name of \<open>src\<close>; otherwise \<open>dst\<close> is created
  or overwritten. Bytes and metadata are those of the source file.
\<close>

fun copy2_leaf :: "name \<Rightarrow> node \<Rightarrow> node option \<Rightarrow> oserror + node" where
  "copy2_leaf bn f None = Inr f"
| "copy2_leaf bn f (Some (File c m)) = Inr f"
| "copy2_leaf bn f (Some (Dir es)) =
     (case map_of es bn of
        Some (Dir xs) \<Rightarrow> Inl IsADirectoryError
      | _ \<Rightarrow> Inr (Dir (AList.update bn f es)))"

definition copy2_at :: "name \<Rightarrow> node \<Rightarrow> node option \<Rightarrow> exn option \<times> node option" where
  "copy2_at bn f cur =
     (case copy2_leaf bn f cur of Inl e \<Rightarrow> (Some (OSError e), cur) | Inr c \<Rightarrow> (None, Some c))"

definition copy2 :: "node \<Rightarrow> path \<Rightarrow> path \<Rightarrow> node \<Rightarrow> exn option \<times> node" where
  "copy2 src sp dp t =
     (case lookup src sp of
        None \<Rightarrow> (Some (OSError FileNotFoundError), t)
      | Some (Dir es) \<Rightarrow> (Some (OSError IsADirectoryError), t)
      | Some (File c m) \<Rightarrow> at_path False (copy2_at (last sp) (File c m)) dp t)"

text \<open>
  \<open>shutil.copytree(src, dst, dirs_exist_ok=True)\<close>: \<open>os.makedirs(dst, exist_ok=True)\<close>
  raises when \<open>dst\<close> is a regular file; then every entry of the source directory is
  copied, a directory by \<open>copytree\<close> again and a file by \<open>copy2\<close>. An error on one entry
  is recorded and the other entries are still copied; the recorded errors are raised
  together at the end as \<open>shutil.Error\<close>.
\<close>

function copytree_at :: "(name \<times> node) list \<Rightarrow> node option \<Rightarrow> oserror + (oserror list \<times> node)"
  and copy_entries ::
    "(name \<times> node) list \<Rightarrow> (name \<times> node) list \<Rightarrow> oserror list \<times> (name \<times> node) list" where
  "copytree_at ses (Some (File c m)) = Inl FileExistsError"
| "copytree_at ses (Some (Dir des)) =
     Inr (case copy_entries ses des of (errs, des') \<Rightarrow> (errs, Dir des'))"
| "copytree_at ses None =
     Inr (case copy_entries ses [] of (errs, des') \<Rightarrow> (errs, Dir des'))"
| "copy_entries [] des = ([], des)"
| "copy_entries ((x, File c m) # ses) des =
     (case copy2_leaf x (File c m) (map_of des x) of
        Inl e \<Rightarrow> (case copy_entries ses des of (errs, des') \<Rightarrow> (e # errs, des'))
      | Inr f \<Rightarrow> copy_entries ses (AList.update x f des))"
| "copy_entries ((x, Dir ses') # ses) des =
     (case copytree_at ses' (map_of des x) of
        Inl e \<Rightarrow> (case copy_entries ses des of (errs, des') \<Rightarrow> (e # errs, des'))
      | Inr (es1, c') \<Rightarrow>
          (case copy_entries ses (AList.update x c' des) of
             (errs, des') \<Rightarrow> (es1 @ errs, des')))"
  by pat_completeness auto
termination
  by (relation "measure (\<lambda>v. case v of
        Inl (ses, d) \<Rightarrow> 2 * size_list (size_prod (\<lambda>x. 0) size) ses + 1
      | Inr (ses, des) \<Rightarrow> 2 * size_list (size_prod (\<lambda>x. 0) size) ses)") auto

definition copytree_leaf :: "(name \<times> node) list \<Rightarrow> node option \<Rightarrow> exn option \<times> node option" where
  "copytree_leaf ses cur =
     (case copytree_at ses cur of
        Inl e \<Rightarrow> (Some (OSError e), cur)
      | Inr (errs, c) \<Rightarrow> (if errs = [] then None else Some (Error errs), Some c))"

definition copytree :: "node \<Rightarrow> path \<Rightarrow> path \<Rightarrow> node \<Rightarrow> exn option \<times> node" where
  "copytree src sp dp t =
     (case lookup src sp of
        None \<Rightarrow> (Some (OSError FileNotFoundError), t)
      | Some (File c m) \<Rightarrow> (Some (OSError NotADirectoryError), t)
      | Some (Dir ses) \<Rightarrow> at_path True (copytree_leaf ses) dp t)"

text \<open>\<open>os.remove\<close> deletes a regular file; \<open>os.rmdir\<close> deletes an empty directory.\<close>

fun remove_leaf :: "node option \<Rightarrow> exn option \<times> node option" where
  "remove_leaf None = (Some (OSError FileNotFoundError), None)"
| "remove_leaf (Some (Dir es)) = (Some (OSError IsADirectoryError), Some (Dir es))"
| "remove_leaf (Some (File c m)) = (None, None)"

definition remove :: "path \<Rightarrow> node \<Rightarrow> exn option \<times> node" where
  "remove p t = at_path False remove_leaf p t"

fun rmdir_leaf :: "node option \<Rightarrow> exn option \<times> node option" where
  "rmdir_leaf None = (Some (OSError FileNotFoundError), None)"
| "rmdir_leaf (Some (File c m)) = (Some (OSError NotADirectoryError), Some (File c m))"
| "rmdir_leaf (Some (Dir [])) = (None, None)"
| "rmdir_leaf (Some (Dir (e # es))) = (Some (OSError DirectoryNotEmpty), Some (Dir (e # es)))"

definition rmdir :: "path \<Rightarrow> node \<Rightarrow> exn option \<times> node" where
  "rmdir p t = at_path False rmdir_leaf p t"

section \<open>\<open>synchronize_folders\<close>\<close>

text \<open>
  A \<open>for\<close> loop over paths whose body may raise: the first exception leaves the loop
  with the tree as the failing call left it, and the remaining paths are not visited.
\<close>

fun run_loop :: "(path \<Rightarrow> node \<Rightarrow> exn option \<times> node) \<Rightarrow> path list \<Rightarrow> node \<Rightarrow> exn option \<times> node" where
  "run_loop body [] t = (None, t)"
| "run_loop body (fp # fps) t =
     (case body fp t of
        (Some e, t') \<Rightarrow> (Some e, t')
      | (None, t') \<Rightarrow> run_loop body fps t')"

text \<open>The three loop bodies (sync.py lines 58 to 63, 75 to 80 and 96 to 102).\<close>

definition create_body :: "node \<Rightarrow> path \<Rightarrow> node \<Rightarrow> exn option \<times> node" where
  "create_body original fp t =
     (if isdir original fp then makedirs fp t else copy2 original fp fp t)"

definition copy_body :: "node \<Rightarrow> path \<Rightarrow> node \<Rightarrow> exn option \<times> node" where
  "copy_body original fp t =
     (if isdir original fp then copytree original fp fp t else copy2 original fp fp t)"

definition remove_body :: "path \<Rightarrow> node \<Rightarrow> exn option \<times> node" where
  "remove_body fp t = (if \<not> isdir t fp then remove fp t else rmdir fp t)"

text \<open>
  Python's \<open>set\<close> is modelled by a list without duplicates. The order in which
  \<open>list(s)\<close> lists a set is not fixed by the language: it is the parameter \<open>\<pi>\<close>, any
  function that permutes its argument.
\<close>

definition is_shuffle :: "(path list \<Rightarrow> path list) \<Rightarrow> bool" where
  "is_shuffle \<pi> = (\<forall>xs. mset (\<pi> xs) = mset xs)"

definition set_diff :: "path list \<Rightarrow> path list \<Rightarrow> path list" where
  "set_diff A B = filter (\<lambda>p. p \<notin> set B) A"

definition set_inter :: "path list \<Rightarrow> path list \<Rightarrow> path list" where
  "set_inter A B = filter (\<lambda>p. p \<in> set B) A"

text \<open>
  The \<open>actions\<close> dictionary keeps its keys in insertion order: \<open>created\<close>, \<open>removed\<close>,
  \<open>copied\<close> (lines 44 to 46).
\<close>

type_synonym actions = "(string \<times> path list) list"

definition classify :: "(path list \<Rightarrow> path list) \<Rightarrow> path list \<Rightarrow> path list \<Rightarrow> actions" where
  "classify \<pi> rel_original_content rel_synchronized_content =
     (let set_original_content = remdups rel_original_content;
          set_synchronized_content = remdups rel_synchronized_content
      in [(''created'', \<pi> (set_diff set_original_content set_synchronized_content)),
          (''removed'', \<pi> (set_diff set_synchronized_content set_original_content)),
          (''copied'', \<pi> (set_inter set_original_content set_synchronized_content))])"

definition action :: "actions \<Rightarrow> string \<Rightarrow> path list" where
  "action a k = (case map_of a k of None \<Rightarrow> [] | Some ps \<Rightarrow> ps)"

definition create_order :: "actions \<Rightarrow> path list" where
  "create_order a = sort_key depth (action a ''created'')"

definition copy_order :: "actions \<Rightarrow> path list" where
  "copy_order a = filter (\<lambda>fp. depth fp = 1) (action a ''copied'')"

text \<open>\<open>sorted(xs, reverse=True, key=k)\<close> keeps equal keys in their original order.\<close>

definition remove_order :: "actions \<Rightarrow> path list" where
  "remove_order a = rev (sort_key depth (rev (action a ''removed'')))"

definition rel_content :: "node \<Rightarrow> path list" where
  "rel_content t = tl (glob t)"

definition synchronize_folders ::
  "(path list \<Rightarrow> path list) \<Rightarrow> node \<Rightarrow> node \<Rightarrow> (exn + actions) \<times> node" where
  "synchronize_folders \<pi> original synchronized =
     (let a = classify \<pi> (rel_content original) (rel_content synchronized) in
      case run_loop (create_body original) (create_order a) synchronized of
        (Some e, t) \<Rightarrow> (Inl e, t)
      | (None, t1) \<Rightarrow>
          (case run_loop (copy_body original) (copy_order a) t1 of
             (Some e, t) \<Rightarrow> (Inl e, t)
           | (None, t2) \<Rightarrow>
               (case run_loop remove_body (remove_order a) t2 of
                  (Some e, t) \<Rightarrow> (Inl e, t)
                | (None, t3) \<Rightarrow> (Inr a, t3))))"

section \<open>Logging and the scheduling loop\<close>

text \<open>
  The world of the process: the two trees, the content of \<open>sync_log.txt\<close> (\<open>None\<close> while
  the file does not exist), the lines printed so far, and the number of times the clock
  has been read. \<open>fmt\<close> renders the clock reading as \<open>datetime.now()\<close> prints it.
\<close>

record world =
  original_tree :: node
  synchronized_tree :: node
  sync_log :: "string option"
  stdout :: "string list"
  ticks :: nat

definition to_upper :: "char \<Rightarrow> char" where
  "to_upper c = (let k = (of_char c :: nat) in if 97 \<le> k \<and> k \<le> 122 then char_of (k - 32) else c)"

definition to_lower :: "char \<Rightarrow> char" where
  "to_lower c = (let k = (of_char c :: nat) in if 65 \<le> k \<and> k \<le> 90 then char_of (k + 32) else c)"

definition capitalize :: "string \<Rightarrow> string" where
  "capitalize s = (case s of [] \<Rightarrow> [] | c # cs \<Rightarrow> to_upper c # map to_lower cs)"

fun join :: "string \<Rightarrow> string list \<Rightarrow> string" where
  "join sep [] = []"
| "join sep [x] = x"
| "join sep (x # y # xs) = x @ sep @ join sep (y # xs)"

definition path_str :: "path \<Rightarrow> string" where
  "path_str p = (if p = [] then ''.'' else join ''/'' p)"

definition action_string :: "string \<Rightarrow> string \<Rightarrow> path \<Rightarrow> string" where
  "action_string now action_key action_path =
     now @ '' '' @ capitalize action_key @ '' file with file path '' @ path_str action_path"

definition file_write :: "string \<Rightarrow> world \<Rightarrow> world" where
  "file_write s w = w\<lparr>sync_log := Some ((case sync_log w of None \<Rightarrow> [] | Some old \<Rightarrow> old) @ s)\<rparr>"

definition print :: "string \<Rightarrow> world \<Rightarrow> world" where
  "print s w = w\<lparr>stdout := stdout w @ [s]\<rparr>"

fun log_paths :: "(nat \<Rightarrow> string) \<Rightarrow> string \<Rightarrow> path list \<Rightarrow> world \<Rightarrow> world" where
  "log_paths fmt action_key [] w = w"
| "log_paths fmt action_key (action_path # ps) w =
     (let s = action_string (fmt (ticks w)) action_key action_path
      in log_paths fmt action_key ps (print s (file_write (s @ [CHR 0x0A]) (w\<lparr>ticks := Suc (ticks w)\<rparr>))))"

fun log_and_print :: "(nat \<Rightarrow> string) \<Rightarrow> actions \<Rightarrow> world \<Rightarrow> world" where
  "log_and_print fmt [] w = w"
| "log_and_print fmt ((action_key, ps) # rest) w =
     log_and_print fmt rest (log_paths fmt action_key ps w)"

text \<open>Opening the file with mode \<open>'w'\<close> empties it; the lines are then appended.\<close>

definition log_and_print_actions :: "(nat \<Rightarrow> string) \<Rightarrow> actions \<Rightarrow> world \<Rightarrow> world" where
  "log_and_print_actions fmt a w = log_and_print fmt a (w\<lparr>sync_log := Some []\<rparr>)"

text \<open>
  The loop never returns: it ends only by an exception, which ends the process.
  \<open>ext i\<close> is what the rest of the system does to the world while pass \<open>i\<close> sleeps;
  \<open>time.sleep\<close> raises \<open>ValueError\<close> on a negative interval. The result is \<open>None\<close> when
  the loop runs forever, and the exception with the world it leaves otherwise.
\<close>

partial_function (option) synchronization_loop ::
  "(path list \<Rightarrow> path list) \<Rightarrow> (nat \<Rightarrow> string) \<Rightarrow> (nat \<Rightarrow> world \<Rightarrow> world) \<Rightarrow> string \<Rightarrow> int
     \<Rightarrow> nat \<Rightarrow> world \<Rightarrow> (exn \<times> world) option" where
  "synchronization_loop \<pi> fmt ext banner synchronization_interval_seconds i w =
     (let now = fmt (ticks w);
          w1 = print (now @ banner) (w\<lparr>ticks := Suc (ticks w)\<rparr>)
      in case synchronize_folders \<pi> (original_tree w1) (synchronized_tree w1) of
           (Inl e, t) \<Rightarrow> Some (e, w1\<lparr>synchronized_tree := t\<rparr>)
         | (Inr a, t) \<Rightarrow>
             (let w2 = log_and_print_actions fmt a (w1\<lparr>synchronized_tree := t\<rparr>);
                  w3 = print (now @ '' Synchronization complete'') w2
              in if synchronization_interval_seconds < 0 then Some (ValueError, w3)
                 else synchronization_loop \<pi> fmt ext banner synchronization_interval_seconds
                        (Suc i) (ext i w3)))"

declare synchronization_loop.simps [code]

section \<open>Example trees\<close>

text \<open>Concrete trees on which the theorems below are exercised.\<close>

definition src1 :: node where
  "src1 = Dir [(''a.txt'', File ''one'' (1, 420)), (''b'', Dir [(''c.txt'', File ''two'' (2, 420))])]"
definition dst1 :: node where
  "dst1 = Dir [(''b'', Dir []), (''old.txt'', File ''zero'' (0, 420))]"

definition hid1 :: node where
  "hid1 = Dir [(''.git'', Dir [(''x'', File ''cfg'' (3, 420))]),
               (''a'', Dir [(''.h'', File ''h'' (4, 420)), (''y'', File ''why'' (5, 420))])]"

text \<open>
  The text of the log: one line per path, each stamped with the clock reading taken
  for it; \<open>log_text\<close> runs through the dictionary in its key order.
\<close>

fun lines_of :: "(nat \<Rightarrow> string) \<Rightarrow> nat \<Rightarrow> string \<Rightarrow> path list \<Rightarrow> string" where
  "lines_of fmt k action_key [] = []"
| "lines_of fmt k action_key (p # ps) =
     action_string (fmt k) action_key p @ [CHR 0x0A] @ lines_of fmt (Suc k) action_key ps"

fun log_text :: "(nat \<Rightarrow> string) \<Rightarrow> nat \<Rightarrow> actions \<Rightarrow> string" where
  "log_text fmt k [] = []"
| "log_text fmt k ((action_key, ps) # rest) =
     lines_of fmt k action_key ps @ log_text fmt (k + length ps) rest"

text \<open>
  The log as claim C2 words it: the created lines, then the copied lines of the
  depth-1 paths only, then the removed lines, each group in the order in which the
  loops visit the paths.
\<close>

definition claimed_log_text :: "(nat \<Rightarrow> string) \<Rightarrow> nat \<Rightarrow> actions \<Rightarrow> string" where
  "claimed_log_text fmt k a =
     lines_of fmt k ''created'' (create_order a)
     @ lines_of fmt (k + length (create_order a)) ''copied'' (copy_order a)
     @ lines_of fmt (k + length (create_order a) + length (copy_order a)) ''removed'' (remove_order a)"

definition src2 :: node where
  "src2 = Dir [(''a'', File ''one'' (1, 420)), (''b'', File ''two'' (2, 420))]"

definition dst2 :: node where
  "dst2 = Dir [(''b'', File ''old'' (0, 420)), (''c'', File ''gone'' (0, 420))]"

definition world0 :: world where
  "world0 = \<lparr>original_tree = src2, synchronized_tree = dst2,
              sync_log = Some ''stale'', stdout = [], ticks = 0\<rparr>"

definition stamp :: "nat \<Rightarrow> string" where
  "stamp n = ''2024-01-01 00:00:00''"

definition actions2 :: actions where
  "actions2 = [(''created'', [[''a'']]), (''removed'', [[''c'']]), (''copied'', [[''b'']])]"

definition src3 :: node where
  "src3 = Dir [(''dir'', Dir [(''x.txt'', File ''new'' (7, 420))])]"

definition dst3 :: node where
  "dst3 = Dir [(''dir'', Dir [(''x.txt'', File ''stale'' (3, 420))])]"

definition actions3 :: actions where
  "actions3 = [(''created'', []), (''removed'', []), (''copied'', [[''dir''], [''dir'', ''x.txt'']])]"

definition src4 :: node where
  "src4 = Dir [(''keep.txt'', File ''k'' (1, 420))]"

definition dst4 :: node where
  "dst4 = Dir [(''keep.txt'', File ''k'' (1, 420)),
               (''old'', Dir [(''.cache'', File ''x'' (2, 420))]),
               (''z.txt'', File ''z'' (3, 420))]"

definition world4 :: world where
  "world4 = \<lparr>original_tree = src4, synchronized_tree = dst4,
              sync_log = Some ''earlier'', stdout = [], ticks = 0\<rparr>"

definition reaches :: "bool \<Rightarrow> node \<Rightarrow> path \<Rightarrow> bool" where
  "reaches mk t p = (\<forall>q. strict_prefix q p \<longrightarrow> stat t q = Some KDir \<or> (mk \<and> stat t q = None))"

definition replaced :: "path \<Rightarrow> node option \<Rightarrow> (path \<Rightarrow> kind option) \<Rightarrow> path \<Rightarrow> kind option" where
  "replaced p new old q =
     (if prefix p q then (case new of None \<Rightarrow> None | Some c \<Rightarrow> stat c (drop (length p) q))
      else if strict_prefix q p then Some KDir
      else old q)"

definition statopt :: "node option \<Rightarrow> path \<Rightarrow> kind option" where
  "statopt d q = (case d of None \<Rightarrow> None | Some c \<Rightarrow> stat c q)"

definition wf_opt :: "node option \<Rightarrow> bool" where
  "wf_opt d = (case d of None \<Rightarrow> True | Some c \<Rightarrow> wf_node c)"

definition agrees :: "node \<Rightarrow> node \<Rightarrow> node \<Rightarrow> bool" where
  "agrees src dst t = (\<forall>q. visible q \<longrightarrow> stat t q = stat dst q \<or> stat t q = stat src q)"

definition grows :: "node \<Rightarrow> node \<Rightarrow> bool" where
  "grows t t' = (\<forall>q. visible q \<longrightarrow> stat t q \<noteq> None \<longrightarrow> stat t' q \<noteq> None)"

definition touches_only :: "node \<Rightarrow> node \<Rightarrow> node \<Rightarrow> bool" where
  "touches_only src t t' = (\<forall>q. q \<noteq> [] \<longrightarrow> stat src (butlast q) = None \<longrightarrow> stat t' q = stat t q)"

definition kinds_agree :: "node \<Rightarrow> node \<Rightarrow> bool" where
  "kinds_agree src dst = list_all (\<lambda>q. isdir dst q \<longrightarrow> isdir src q) (rel_content src)"

definition src5 :: node where
  "src5 = Dir [(''a'', File ''one'' (1, 420))]"

definition dst5 :: node where
  "dst5 = Dir [(''a'', Dir [])]"

definition src6 :: node where
  "src6 = Dir []"

definition dst6 :: node where
  "dst6 = Dir [(''old'', Dir [(''.keep'', File ''k'' (2, 420))])]"

definition after1 :: node where
  "after1 = Dir [(''b'', Dir [(''c.txt'', File ''two'' (2, 420))]), (''a.txt'', File ''one'' (1, 420))]"

definition after5 :: node where
  "after5 = Dir [(''a'', Dir [(''a'', File ''one'' (1, 420))])]"

text \<open>
  Two conditions on a pair of trees, both decidable on the enumerated paths: a source
  directory that the destination also holds is a directory there, and the listed
  destination directories hold no hidden entry.
\<close>

definition parents_agree :: "node \<Rightarrow> node \<Rightarrow> bool" where
  "parents_agree src dst =
     list_all (\<lambda>q. isdir src q \<longrightarrow> stat dst q = None \<or> isdir dst q) (rel_content src)"

definition no_hidden_entries :: "node \<Rightarrow> path list \<Rightarrow> bool" where
  "no_hidden_entries dst ps =
     list_all (\<lambda>p. case lookup dst p of
                     Some (Dir es) \<Rightarrow> list_all (\<lambda>(x, c). \<not> ishidden x) es
                   | _ \<Rightarrow> True) ps"

text \<open>Trees for the create loop and for the remove loop.\<close>

definition mid1 :: node where
  "mid1 = Dir [(''a.txt'', File ''one'' (1, 420))]"

definition mid1b :: node where
  "mid1b = Dir [(''a.txt'', File ''one'' (1, 420)), (''b'', Dir [])]"

definition end1 :: node where
  "end1 = Dir [(''a.txt'', File ''one'' (1, 420)), (''b'', Dir [(''c.txt'', File ''two'' (2, 420))])]"

definition dst7 :: node where
  "dst7 = Dir [(''keep.txt'', File ''k'' (1, 420)),
               (''oldDir'', Dir [(''f.txt'', File ''f'' (2, 420))])]"

definition mid7 :: node where
  "mid7 = Dir [(''keep.txt'', File ''k'' (1, 420)), (''oldDir'', Dir [])]"

section \<open>Enumeration and classification\<close>

lemma map_of_distinct_iff:
  "distinct (map fst es) \<Longrightarrow> map_of es x = Some c \<longleftrightarrow> (x, c) \<in> set es"
  by (auto dest: map_of_SomeD)

lemma visible_Nil [simp]: "visible []"
  by (simp add: visible_def)

lemma visible_Cons [simp]: "visible (x # p) \<longleftrightarrow> \<not> ishidden x \<and> visible p"
  by (simp add: visible_def)

lemma visible_append [simp]: "visible (p @ q) \<longleftrightarrow> visible p \<and> visible q"
  by (simp add: visible_def)

lemma rlistdir_iff:
  "wf_node t \<Longrightarrow> p \<in> set (rlistdir t) \<longleftrightarrow> p \<noteq> [] \<and> visible p \<and> lookup t p \<noteq> None"
proof (induction t arbitrary: p rule: rlistdir.induct)
  case (1 c m)
  then show ?case by (cases p) auto
next
  case (2 es)
  have d: "distinct (map fst es)" using 2(2) by simp
  have wfc: "\<And>x c. (x, c) \<in> set es \<Longrightarrow> wf_node c"
    using 2(2) by (auto simp: list_all_iff)
  show ?case
  proof (cases p)
    case Nil
    then show ?thesis by auto
  next
    case (Cons y q)
    have "p \<in> set (rlistdir (Dir es)) \<longleftrightarrow>
      (\<exists>c. (y, c) \<in> set es \<and> \<not> ishidden y \<and> (q = [] \<or> q \<in> set (rlistdir c)))"
      using Cons by (auto split: if_splits)
    also have "\<dots> \<longleftrightarrow> (\<exists>c. (y, c) \<in> set es \<and> \<not> ishidden y \<and> (q = [] \<or> (q \<noteq> [] \<and> visible q \<and> lookup c q \<noteq> None)))"
      using 2(1) wfc by blast
    also have "\<dots> \<longleftrightarrow> (\<exists>c. map_of es y = Some c \<and> \<not> ishidden y \<and> visible q \<and> lookup c q \<noteq> None)"
      using map_of_distinct_iff[OF d] by (cases q) auto
    also have "\<dots> \<longleftrightarrow> p \<noteq> [] \<and> visible p \<and> lookup (Dir es) p \<noteq> None"
      using Cons by (auto split: option.splits)
    finally show ?thesis .
  qed
qed

lemma Nil_notin_rlistdir: "[] \<notin> set (rlistdir t)"
  by (induction t rule: rlistdir.induct) (auto split: if_splits)

lemma rel_content_eq: "rel_content t = rlistdir t"
  by (simp add: rel_content_def glob_def)

lemma is_shuffle_set: "is_shuffle \<pi> \<Longrightarrow> set (\<pi> xs) = set xs"
  by (rule mset_eq_setD) (simp add: is_shuffle_def)

lemma is_shuffle_distinct: "is_shuffle \<pi> \<Longrightarrow> distinct (\<pi> xs) = distinct xs"
  by (rule mset_eq_imp_distinct_iff) (simp add: is_shuffle_def)

lemma is_shuffle_id: "is_shuffle (\<lambda>xs. xs)"
  by (simp add: is_shuffle_def)

lemma action_classify:
  "action (classify \<pi> S D) ''created'' = \<pi> (set_diff (remdups S) (remdups D))"
  "action (classify \<pi> S D) ''removed'' = \<pi> (set_diff (remdups D) (remdups S))"
  "action (classify \<pi> S D) ''copied'' = \<pi> (set_inter (remdups S) (remdups D))"
  by (simp_all add: action_def classify_def Let_def)

lemma set_action_classify:
  assumes "is_shuffle \<pi>"
  shows "set (action (classify \<pi> S D) ''created'') = set S - set D"
    and "set (action (classify \<pi> S D) ''removed'') = set D - set S"
    and "set (action (classify \<pi> S D) ''copied'') = set S \<inter> set D"
  using assms by (auto simp: action_classify is_shuffle_set set_diff_def set_inter_def)

lemma distinct_action_classify:
  assumes "is_shuffle \<pi>"
  shows "distinct (action (classify \<pi> S D) ''created'')"
    and "distinct (action (classify \<pi> S D) ''removed'')"
    and "distinct (action (classify \<pi> S D) ''copied'')"
  using assms by (auto simp: action_classify is_shuffle_distinct set_diff_def set_inter_def)

lemma synchronize_folders_cases:
  obtains (create_fails) e t where
      "run_loop (create_body src) (create_order (classify \<pi> (rel_content src) (rel_content dst))) dst = (Some e, t)"
      "synchronize_folders \<pi> src dst = (Inl e, t)"
  | (copy_fails) t1 e t where
      "run_loop (create_body src) (create_order (classify \<pi> (rel_content src) (rel_content dst))) dst = (None, t1)"
      "run_loop (copy_body src) (copy_order (classify \<pi> (rel_content src) (rel_content dst))) t1 = (Some e, t)"
      "synchronize_folders \<pi> src dst = (Inl e, t)"
  | (remove_fails) t1 t2 e t where
      "run_loop (create_body src) (create_order (classify \<pi> (rel_content src) (rel_content dst))) dst = (None, t1)"
      "run_loop (copy_body src) (copy_order (classify \<pi> (rel_content src) (rel_content dst))) t1 = (None, t2)"
      "run_loop remove_body (remove_order (classify \<pi> (rel_content src) (rel_content dst))) t2 = (Some e, t)"
      "synchronize_folders \<pi> src dst = (Inl e, t)"
  | (succeeds) t1 t2 t3 where
      "run_loop (create_body src) (create_order (classify \<pi> (rel_content src) (rel_content dst))) dst = (None, t1)"
      "run_loop (copy_body src) (copy_order (classify \<pi> (rel_content src) (rel_content dst))) t1 = (None, t2)"
      "run_loop remove_body (remove_order (classify \<pi> (rel_content src) (rel_content dst))) t2 = (None, t3)"
      "synchronize_folders \<pi> src dst = (Inr (classify \<pi> (rel_content src) (rel_content dst)), t3)"
proof -
  define a where "a = classify \<pi> (rel_content src) (rel_content dst)"
  obtain e1 t1 where r1: "run_loop (create_body src) (create_order a) dst = (e1, t1)"
    by (cases "run_loop (create_body src) (create_order a) dst")
  obtain e2 t2 where r2: "run_loop (copy_body src) (copy_order a) t1 = (e2, t2)"
    by (cases "run_loop (copy_body src) (copy_order a) t1")
  obtain e3 t3 where r3: "run_loop remove_body (remove_order a) t2 = (e3, t3)"
    by (cases "run_loop remove_body (remove_order a) t2")
  show thesis
  proof (cases e1)
    case (Some e)
    then show thesis using r1 create_fails[of e t1]
      by (simp add: synchronize_folders_def a_def)
  next
    case n1: None
    show thesis
    proof (cases e2)
      case (Some e)
      then show thesis using r1 r2 n1 copy_fails[of t1 e t2]
        by (simp add: synchronize_folders_def a_def)
    next
      case n2: None
      show thesis
      proof (cases e3)
        case (Some e)
        then show thesis using r1 r2 r3 n1 n2 remove_fails[of t1 t2 e t3]
          by (simp add: synchronize_folders_def a_def)
      next
        case None
        then show thesis using r1 r2 r3 n1 n2 succeeds[of t1 t2 t3]
          by (simp add: synchronize_folders_def a_def)
      qed
    qed
  qed
qed

lemma synchronize_folders_actions:
  "fst (synchronize_folders \<pi> src dst) = Inr a \<Longrightarrow>
     a = classify \<pi> (rel_content src) (rel_content dst)"
  by (cases \<pi> src dst rule: synchronize_folders_cases) simp_all

text \<open>
  Claim C1. On every pass the three action lists are the two set differences and the
  intersection of the enumerated relative paths: created is source minus destination,
  removed is destination minus source, copied is their intersection; the three are
  pairwise disjoint and together make up the union of the two enumerations. These are
  the lists \<open>synchronize_folders\<close> returns when it returns.
\<close>

theorem partition_actions:
  assumes "is_shuffle \<pi>"
    and "a = classify \<pi> (rel_content original) (rel_content synchronized)"
    and "S = set (rel_content original)" and "D = set (rel_content synchronized)"
  shows "set (action a ''created'') = S - D
       \<and> set (action a ''removed'') = D - S
       \<and> set (action a ''copied'') = S \<inter> D
       \<and> set (action a ''created'') \<inter> set (action a ''removed'') = {}
       \<and> set (action a ''created'') \<inter> set (action a ''copied'') = {}
       \<and> set (action a ''removed'') \<inter> set (action a ''copied'') = {}
       \<and> set (action a ''created'') \<union> set (action a ''removed'') \<union> set (action a ''copied'') = S \<union> D
       \<and> (\<forall>a'. fst (synchronize_folders \<pi> original synchronized) = Inr a' \<longrightarrow> a' = a)"
proof -
  have c: "set (action a ''created'') = S - D"
    and r: "set (action a ''removed'') = D - S"
    and k: "set (action a ''copied'') = S \<inter> D"
    using assms by (simp_all add: set_action_classify)
  have "\<forall>a'. fst (synchronize_folders \<pi> original synchronized) = Inr a' \<longrightarrow> a' = a"
    using assms(2) synchronize_folders_actions by blast
  moreover have "(S - D) \<inter> (D - S) = {}" "(S - D) \<inter> (S \<inter> D) = {}" "(D - S) \<inter> (S \<inter> D) = {}"
    "(S - D) \<union> (D - S) \<union> (S \<inter> D) = S \<union> D" by blast+
  ultimately show ?thesis unfolding c r k by simp
qed

theorem partition_actions_witness:
  "is_shuffle (\<lambda>xs. xs)
   \<and> action (classify (\<lambda>xs. xs) (rel_content src1) (rel_content dst1)) ''created'' = [[''a.txt''], [''b'', ''c.txt'']]
   \<and> action (classify (\<lambda>xs. xs) (rel_content src1) (rel_content dst1)) ''removed'' = [[''old.txt'']]
   \<and> action (classify (\<lambda>xs. xs) (rel_content src1) (rel_content dst1)) ''copied'' = [[''b'']]
   \<and> set (action (classify (\<lambda>xs. xs) (rel_content src1) (rel_content dst1)) ''created'')
       = set (rel_content src1) - set (rel_content dst1)
   \<and> set (action (classify (\<lambda>xs. xs) (rel_content src1) (rel_content dst1)) ''created'')
       \<inter> set (action (classify (\<lambda>xs. xs) (rel_content src1) (rel_content dst1)) ''copied'') = {}"
proof -
  note t = partition_actions[OF is_shuffle_id refl refl refl, of src1 dst1]
  have e: "action (classify (\<lambda>xs. xs) (rel_content src1) (rel_content dst1)) ''created'' = [[''a.txt''], [''b'', ''c.txt'']]"
    "action (classify (\<lambda>xs. xs) (rel_content src1) (rel_content dst1)) ''removed'' = [[''old.txt'']]"
    "action (classify (\<lambda>xs. xs) (rel_content src1) (rel_content dst1)) ''copied'' = [[''b'']]"
    by (simp_all add: action_classify set_diff_def set_inter_def src1_def dst1_def rel_content_eq ishidden_def)
  from t have t1: "set (action (classify (\<lambda>xs. xs) (rel_content src1) (rel_content dst1)) ''created'')
       = set (rel_content src1) - set (rel_content dst1)" by (rule conjunct1)
  from t have t5: "set (action (classify (\<lambda>xs. xs) (rel_content src1) (rel_content dst1)) ''created'')
       \<inter> set (action (classify (\<lambda>xs. xs) (rel_content src1) (rel_content dst1)) ''copied'') = {}"
    by (elim conjE)
  show ?thesis
    by (intro conjI is_shuffle_id e t1 t5)
qed

lemma wf_hid1: "wf_node hid1"
  by (simp add: hid1_def)

lemma rel_content_hid1: "rel_content hid1 = [[''a''], [''a'', ''y'']]"
  by (simp add: hid1_def rel_content_eq ishidden_def)




lemma set_create_order: "set (create_order a) = set (action a ''created'')"
  by (simp add: create_order_def)

lemma set_remove_order: "set (remove_order a) = set (action a ''removed'')"
  by (simp add: remove_order_def)

lemma set_copy_order: "set (copy_order a) = {p \<in> set (action a ''copied''). depth p = 1}"
  by (auto simp: copy_order_def)

text \<open>
  Claim C10. The root is the first element of each \<open>glob\<close> result and is dropped by
  the slice \<open>[1:]\<close>; its relative path is in neither enumeration, in none of the three
  action lists, and in none of the three sequences of paths the loops visit, so no
  operation of a pass addresses a root.
\<close>

theorem root_excluded:
  assumes "is_shuffle \<pi>"
    and "a = classify \<pi> (rel_content original) (rel_content synchronized)"
  shows "hd (glob original) = [] \<and> hd (glob synchronized) = []
       \<and> rel_content original = tl (glob original)
       \<and> rel_content synchronized = tl (glob synchronized)
       \<and> [] \<notin> set (rel_content original) \<and> [] \<notin> set (rel_content synchronized)
       \<and> [] \<notin> set (action a ''created'') \<and> [] \<notin> set (action a ''removed'')
       \<and> [] \<notin> set (action a ''copied'')
       \<and> [] \<notin> set (create_order a) \<and> [] \<notin> set (copy_order a) \<and> [] \<notin> set (remove_order a)"
proof -
  have n: "[] \<notin> set (rel_content original)" "[] \<notin> set (rel_content synchronized)"
    by (simp_all add: rel_content_eq Nil_notin_rlistdir)
  have c: "[] \<notin> set (action a ''created'')" "[] \<notin> set (action a ''removed'')"
    "[] \<notin> set (action a ''copied'')"
    using n assms by (simp_all add: set_action_classify)
  have o: "[] \<notin> set (create_order a)" "[] \<notin> set (copy_order a)" "[] \<notin> set (remove_order a)"
    using c by (simp_all add: set_create_order set_remove_order set_copy_order)
  have g: "hd (glob original) = []" "hd (glob synchronized) = []"
    "rel_content original = tl (glob original)" "rel_content synchronized = tl (glob synchronized)"
    by (simp_all add: glob_def rel_content_def)
  from n c o g show ?thesis by simp
qed

theorem root_excluded_witness:
  "is_shuffle (\<lambda>xs. xs)
   \<and> glob src1 = [[], [''a.txt''], [''b''], [''b'', ''c.txt'']]
   \<and> rel_content src1 = [[''a.txt''], [''b''], [''b'', ''c.txt'']]
   \<and> [] \<notin> set (rel_content src1)
   \<and> [] \<notin> set (create_order (classify (\<lambda>xs. xs) (rel_content src1) (rel_content dst1)))
   \<and> [] \<notin> set (copy_order (classify (\<lambda>xs. xs) (rel_content src1) (rel_content dst1)))
   \<and> [] \<notin> set (remove_order (classify (\<lambda>xs. xs) (rel_content src1) (rel_content dst1)))"
proof -
  note t = root_excluded[OF is_shuffle_id refl, of src1 dst1]
  have g: "glob src1 = [[], [''a.txt''], [''b''], [''b'', ''c.txt'']]"
    "rel_content src1 = [[''a.txt''], [''b''], [''b'', ''c.txt'']]"
    by (simp_all add: glob_def rel_content_def src1_def ishidden_def)
  from t g is_shuffle_id show ?thesis by blast
qed

section \<open>The log file\<close>

lemma log_paths_sync_log:
  "sync_log w = Some old \<Longrightarrow>
     sync_log (log_paths fmt k ps w) = Some (old @ lines_of fmt (ticks w) k ps)
     \<and> ticks (log_paths fmt k ps w) = ticks w + length ps"
proof (induction ps arbitrary: w old)
  case Nil
  then show ?case by simp
next
  case (Cons p ps)
  let ?s = "action_string (fmt (ticks w)) k p"
  let ?w = "print ?s (file_write (?s @ [CHR 0x0A]) (w\<lparr>ticks := Suc (ticks w)\<rparr>))"
  have a: "sync_log ?w = Some (old @ ?s @ [CHR 0x0A])" and b: "ticks ?w = Suc (ticks w)"
    using Cons.prems by (simp_all add: print_def file_write_def)
  from Cons.IH[OF a] b show ?case by (simp add: Let_def)
qed

lemma log_and_print_sync_log:
  "sync_log w = Some old \<Longrightarrow>
     sync_log (log_and_print fmt a w) = Some (old @ log_text fmt (ticks w) a)
     \<and> ticks (log_and_print fmt a w) = ticks w + length (concat (map snd a))"
proof (induction a arbitrary: w old)
  case Nil
  then show ?case by simp
next
  case (Cons kp rest)
  obtain k ps where kp: "kp = (k, ps)" by (cases kp)
  from log_paths_sync_log[OF Cons.prems, of fmt k ps]
  have a: "sync_log (log_paths fmt k ps w) = Some (old @ lines_of fmt (ticks w) k ps)"
    and b: "ticks (log_paths fmt k ps w) = ticks w + length ps" by simp_all
  from Cons.IH[OF a] b kp show ?case by (simp add: add.assoc)
qed

lemma log_and_print_actions_sync_log:
  "sync_log (log_and_print_actions fmt a w) = Some (log_text fmt (ticks w) a)"
  "ticks (log_and_print_actions fmt a w) = ticks w + length (concat (map snd a))"
  using log_and_print_sync_log[of "w\<lparr>sync_log := Some []\<rparr>" "[]" fmt a]
  by (simp_all add: log_and_print_actions_def)

text \<open>
  Claim C8. \<open>log_and_print_actions\<close> discards what \<open>sync_log.txt\<close> held: after a pass
  the file holds the lines of that pass and nothing else, in whatever state the first
  pass and the time between the passes left it; within a pass every line is appended
  to what the pass has written so far.
\<close>

theorem log_truncated_each_pass:
  "sync_log (log_and_print_actions fmt a w) = Some (log_text fmt (ticks w) a)
   \<and> sync_log (log_and_print_actions fmt a2 (ext (log_and_print_actions fmt a1 w)))
       = Some (log_text fmt (ticks (ext (log_and_print_actions fmt a1 w))) a2)
   \<and> sync_log (log_and_print fmt a (w\<lparr>sync_log := Some old\<rparr>))
       = Some (old @ log_text fmt (ticks w) a)
   \<and> sync_log (log_paths fmt k [p] (w\<lparr>sync_log := Some old\<rparr>))
       = Some (old @ action_string (fmt (ticks w)) k p @ [CHR 0x0A])"
  using log_and_print_sync_log[of "w\<lparr>sync_log := Some old\<rparr>" old fmt a]
    log_paths_sync_log[of "w\<lparr>sync_log := Some old\<rparr>" old fmt k "[p]"]
  by (simp add: log_and_print_actions_sync_log)

text \<open>
  Claim C2, as amended. The log holds one line per entry of the three action lists, in
  the key order of the dictionary: all created paths, then all removed paths, then all
  copied paths (nested ones included), each list in its own order.
\<close>

theorem log_order_dictionary:
  "sync_log (log_and_print_actions fmt (classify \<pi> S D) w) =
     Some (lines_of fmt (ticks w) ''created'' (action (classify \<pi> S D) ''created'')
         @ lines_of fmt (ticks w + length (action (classify \<pi> S D) ''created'')) ''removed''
             (action (classify \<pi> S D) ''removed'')
         @ lines_of fmt (ticks w + length (action (classify \<pi> S D) ''created'')
                          + length (action (classify \<pi> S D) ''removed'')) ''copied''
             (action (classify \<pi> S D) ''copied''))"
  by (simp add: log_and_print_actions_sync_log action_classify) (simp add: classify_def Let_def)

lemma sync2: "synchronize_folders (\<lambda>xs. xs) src2 dst2 =
    (Inr actions2, Dir [(''b'', File ''two'' (2, 420)), (''a'', File ''one'' (1, 420))])"
  by code_simp

lemma log2: "sync_log (log_and_print_actions stamp actions2 world0) =
    Some (''2024-01-01 00:00:00 Created file with file path a'' @ [CHR 0x0A]
        @ ''2024-01-01 00:00:00 Removed file with file path c'' @ [CHR 0x0A]
        @ ''2024-01-01 00:00:00 Copied file with file path b'' @ [CHR 0x0A])"
  by code_simp

lemma claimed2: "claimed_log_text stamp (ticks world0) actions2 =
    ''2024-01-01 00:00:00 Created file with file path a'' @ [CHR 0x0A]
    @ ''2024-01-01 00:00:00 Copied file with file path b'' @ [CHR 0x0A]
    @ ''2024-01-01 00:00:00 Removed file with file path c'' @ [CHR 0x0A]"
  by code_simp

lemma sync3: "fst (synchronize_folders (\<lambda>xs. xs) src3 dst3) = Inr actions3"
  by code_simp

lemma log3: "sync_log (log_and_print_actions stamp actions3 world0) =
    Some (''2024-01-01 00:00:00 Copied file with file path dir'' @ [CHR 0x0A]
        @ ''2024-01-01 00:00:00 Copied file with file path dir/x.txt'' @ [CHR 0x0A])"
  by code_simp

lemma claimed3: "claimed_log_text stamp (ticks world0) actions3 =
    ''2024-01-01 00:00:00 Copied file with file path dir'' @ [CHR 0x0A]"
  by code_simp

text \<open>
  Claim C2 as stated fails twice: the removed line is written before the copied line,
  and a copied path of depth 2 has a line of its own.
\<close>

theorem log_order_counterexample:
  "fst (synchronize_folders (\<lambda>xs. xs) src2 dst2) = Inr actions2
   \<and> sync_log (log_and_print_actions stamp actions2 world0) =
       Some (''2024-01-01 00:00:00 Created file with file path a'' @ [CHR 0x0A]
           @ ''2024-01-01 00:00:00 Removed file with file path c'' @ [CHR 0x0A]
           @ ''2024-01-01 00:00:00 Copied file with file path b'' @ [CHR 0x0A])
   \<and> sync_log (log_and_print_actions stamp actions2 world0)
       \<noteq> Some (claimed_log_text stamp (ticks world0) actions2)
   \<and> fst (synchronize_folders (\<lambda>xs. xs) src3 dst3) = Inr actions3
   \<and> sync_log (log_and_print_actions stamp actions3 world0) =
       Some (''2024-01-01 00:00:00 Copied file with file path dir'' @ [CHR 0x0A]
           @ ''2024-01-01 00:00:00 Copied file with file path dir/x.txt'' @ [CHR 0x0A])
   \<and> sync_log (log_and_print_actions stamp actions3 world0)
       \<noteq> Some (claimed_log_text stamp (ticks world0) actions3)"
  by (simp add: sync2 sync3 log2 log3 claimed2 claimed3)

lemma classify2: "classify (\<lambda>xs. xs) (rel_content src2) (rel_content dst2) = actions2"
  by code_simp

theorem log_order_dictionary_witness:
  "sync_log (log_and_print_actions stamp (classify (\<lambda>xs. xs) (rel_content src2) (rel_content dst2)) world0) =
     Some (''2024-01-01 00:00:00 Created file with file path a'' @ [CHR 0x0A]
         @ ''2024-01-01 00:00:00 Removed file with file path c'' @ [CHR 0x0A]
         @ ''2024-01-01 00:00:00 Copied file with file path b'' @ [CHR 0x0A])"
  by (rule trans[OF log_order_dictionary]) code_simp

theorem log_truncated_each_pass_witness:
  "sync_log (log_and_print_actions stamp actions3 (log_and_print_actions stamp actions2 world0)) =
     Some (''2024-01-01 00:00:00 Copied file with file path dir'' @ [CHR 0x0A]
         @ ''2024-01-01 00:00:00 Copied file with file path dir/x.txt'' @ [CHR 0x0A])"
  by (rule trans[OF conjunct1[OF conjunct2[OF
        log_truncated_each_pass[where fmt = stamp and ext = "\<lambda>w. w" and ?a1.0 = actions2
          and ?a2.0 = actions3]]]]) code_simp

section \<open>Exceptions\<close>

lemma run_loop_append:
  "run_loop body pre t0 = (None, t1) \<Longrightarrow> run_loop body (pre @ rest) t0 = run_loop body rest t1"
proof (induction pre arbitrary: t0)
  case Nil
  then show ?case by simp
next
  case (Cons p pre)
  obtain e t where b: "body p t0 = (e, t)" by (cases "body p t0")
  with Cons.prems have "e = None" by (cases e) auto
  with b Cons show ?case by simp
qed

lemma run_loop_fails_at:
  assumes "run_loop body pre t0 = (None, t1)" and "body fp t1 = (Some e, t2)"
  shows "run_loop body (pre @ fp # post) t0 = (Some e, t2)"
  using run_loop_append[OF assms(1), of "fp # post"] assms(2) by simp

lemma synchronization_loop_raises:
  assumes "synchronize_folders \<pi> (original_tree w) (synchronized_tree w) = (Inl e, t)"
  shows "synchronization_loop \<pi> fmt ext banner iv i w =
           Some (e, (print (fmt (ticks w) @ banner) (w\<lparr>ticks := Suc (ticks w)\<rparr>))\<lparr>synchronized_tree := t\<rparr>)"
  using assms by (subst synchronization_loop.simps) (simp add: Let_def print_def)

text \<open>
  Claim C9. When a filesystem operation raises in the create, copy or remove loop, the
  paths after it are not visited, \<open>synchronize_folders\<close> ends with that exception and
  the tree as the failing call left it, and the scheduling loop ends with it too: no
  log is written for the pass and no further pass runs.
\<close>

theorem error_propagates:
  assumes a: "a = classify \<pi> (rel_content src) (rel_content dst)"
    and phase:
      "(body = create_body src \<and> order = create_order a \<and> t0 = dst)
       \<or> (body = copy_body src \<and> order = copy_order a
           \<and> run_loop (create_body src) (create_order a) dst = (None, t0))
       \<or> (body = remove_body \<and> order = remove_order a
           \<and> (\<exists>t'. run_loop (create_body src) (create_order a) dst = (None, t')
                  \<and> run_loop (copy_body src) (copy_order a) t' = (None, t0)))"
    and split: "order = pre @ fp # post"
    and pre: "run_loop body pre t0 = (None, t1)"
    and fails: "body fp t1 = (Some e, t2)"
    and w: "original_tree w = src" "synchronized_tree w = dst"
  shows "run_loop body order t0 = (Some e, t2)
       \<and> synchronize_folders \<pi> src dst = (Inl e, t2)
       \<and> synchronization_loop \<pi> fmt ext banner iv i w =
           Some (e, (print (fmt (ticks w) @ banner) (w\<lparr>ticks := Suc (ticks w)\<rparr>))\<lparr>synchronized_tree := t2\<rparr>)"
proof -
  have r: "run_loop body order t0 = (Some e, t2)"
    using run_loop_fails_at[OF pre fails] split by simp
  have s: "synchronize_folders \<pi> src dst = (Inl e, t2)"
    using phase r a by (auto simp: synchronize_folders_def Let_def)
  from r s synchronization_loop_raises[of \<pi> w e t2] w show ?thesis by simp
qed

lemma ex4_create: "run_loop (create_body src4)
    (create_order (classify (\<lambda>xs. xs) (rel_content src4) (rel_content dst4))) dst4 = (None, dst4)"
  by code_simp

lemma ex4_copy: "run_loop (copy_body src4)
    (copy_order (classify (\<lambda>xs. xs) (rel_content src4) (rel_content dst4))) dst4 = (None, dst4)"
  by code_simp

lemma ex4_order: "remove_order (classify (\<lambda>xs. xs) (rel_content src4) (rel_content dst4))
    = [] @ [''old''] # [[''z.txt'']]"
  by code_simp

lemma ex4_fails: "remove_body [''old''] dst4 = (Some (OSError DirectoryNotEmpty), dst4)"
  by code_simp

theorem error_propagates_witness:
  "remove_order (classify (\<lambda>xs. xs) (rel_content src4) (rel_content dst4)) = [] @ [''old''] # [[''z.txt'']]
   \<and> run_loop remove_body [] dst4 = (None, dst4)
   \<and> remove_body [''old''] dst4 = (Some (OSError DirectoryNotEmpty), dst4)
   \<and> run_loop remove_body (remove_order (classify (\<lambda>xs. xs) (rel_content src4) (rel_content dst4))) dst4
       = (Some (OSError DirectoryNotEmpty), dst4)
   \<and> synchronize_folders (\<lambda>xs. xs) src4 dst4 = (Inl (OSError DirectoryNotEmpty), dst4)
   \<and> stat dst4 [''z.txt''] = Some (KFile ''z'' (3, 420))
   \<and> synchronization_loop (\<lambda>xs. xs) stamp (\<lambda>i w. w) '' Started'' 5 0 world4 =
       Some (OSError DirectoryNotEmpty,
             (print (stamp (ticks world4) @ '' Started'') (world4\<lparr>ticks := Suc (ticks world4)\<rparr>))
               \<lparr>synchronized_tree := dst4\<rparr>)"
proof -
  have ph: "(remove_body = create_body src4
        \<and> remove_order (classify (\<lambda>xs. xs) (rel_content src4) (rel_content dst4))
            = create_order (classify (\<lambda>xs. xs) (rel_content src4) (rel_content dst4)) \<and> dst4 = dst4)
       \<or> (remove_body = copy_body src4
           \<and> remove_order (classify (\<lambda>xs. xs) (rel_content src4) (rel_content dst4))
            = copy_order (classify (\<lambda>xs. xs) (rel_content src4) (rel_content dst4))
           \<and> run_loop (create_body src4) (create_order (classify (\<lambda>xs. xs) (rel_content src4) (rel_content dst4))) dst4 = (None, dst4))
       \<or> (remove_body = remove_body
           \<and> remove_order (classify (\<lambda>xs. xs) (rel_content src4) (rel_content dst4))
            = remove_order (classify (\<lambda>xs. xs) (rel_content src4) (rel_content dst4))
           \<and> (\<exists>t'. run_loop (create_body src4) (create_order (classify (\<lambda>xs. xs) (rel_content src4) (rel_content dst4))) dst4 = (None, t')
                  \<and> run_loop (copy_body src4) (copy_order (classify (\<lambda>xs. xs) (rel_content src4) (rel_content dst4))) t' = (None, dst4)))"
    using ex4_create ex4_copy by blast
  have pre: "run_loop remove_body [] dst4 = (None, dst4)" by simp
  have w: "original_tree world4 = src4" "synchronized_tree world4 = dst4"
    by (simp_all add: world4_def)
  have z: "stat dst4 [''z.txt''] = Some (KFile ''z'' (3, 420))" by code_simp
  note t = error_propagates[OF refl ph ex4_order pre ex4_fails w,
      where fmt = stamp and ext = "\<lambda>i w. w" and banner = "'' Started''" and iv = 5 and i = 0]
  from t ex4_order pre ex4_fails z show ?thesis by blast
qed

section \<open>Paths and lookups\<close>

lemma stat_Nil [simp]: "stat t [] = Some (kind_of t)"
  by (simp add: stat_def)

lemma stat_File [simp]: "stat (File c m) (x # p) = None"
  by (simp add: stat_def)

lemma stat_Dir [simp]:
  "stat (Dir es) (x # p) = (case map_of es x of None \<Rightarrow> None | Some c \<Rightarrow> stat c p)"
  by (simp add: stat_def split: option.splits)

lemma lookup_append:
  "lookup t (p @ q) = (case lookup t p of None \<Rightarrow> None | Some c \<Rightarrow> lookup c q)"
  by (induction t p rule: lookup.induct) (auto split: option.splits)

lemma stat_append:
  "stat t (p @ q) = (case lookup t p of None \<Rightarrow> None | Some c \<Rightarrow> stat c q)"
  by (simp add: stat_def lookup_append split: option.splits)

lemma stat_None_iff: "stat t p = None \<longleftrightarrow> lookup t p = None"
  by (simp add: stat_def)

lemma stat_KDir_iff: "stat t p = Some KDir \<longleftrightarrow> (\<exists>es. lookup t p = Some (Dir es))"
proof (cases "lookup t p")
  case None
  then show ?thesis by (simp add: stat_def)
next
  case (Some c)
  then show ?thesis by (cases c) (simp_all add: stat_def)
qed

lemma stat_KFile_iff: "stat t p = Some (KFile c m) \<longleftrightarrow> lookup t p = Some (File c m)"
proof (cases "lookup t p")
  case None
  then show ?thesis by (simp add: stat_def)
next
  case (Some d)
  then show ?thesis by (cases d) (simp_all add: stat_def)
qed

lemma isdir_iff: "isdir t p \<longleftrightarrow> stat t p = Some KDir"
  by (auto simp: isdir_def stat_KDir_iff split: option.splits node.splits)

lemma stat_prefix_dir:
  assumes "stat t (p @ q) \<noteq> None" and "q \<noteq> []"
  shows "stat t p = Some KDir"
proof -
  from assms(1) obtain c where c: "lookup t p = Some c" and s: "stat c q \<noteq> None"
    by (auto simp: stat_append split: option.splits)
  from s assms(2) obtain es where "c = Dir es"
    by (cases c; cases q) auto
  with c show ?thesis by (simp add: stat_KDir_iff)
qed

lemma stat_strict_prefix:
  assumes "strict_prefix q p" and "stat t p \<noteq> None"
  shows "stat t q = Some KDir"
proof -
  from assms(1) obtain r where "p = q @ r" "r \<noteq> []"
    by (auto simp: strict_prefix_def prefix_def)
  with assms(2) show ?thesis using stat_prefix_dir by blast
qed

lemma stat_below_nondir:
  assumes "strict_prefix p q" and "stat t p \<noteq> Some KDir"
  shows "stat t q = None"
  using assms stat_strict_prefix by (cases "stat t q") auto

lemma lookup_empty_dir:
  "lookup t p = Some (Dir []) \<longleftrightarrow> stat t p = Some KDir \<and> (\<forall>x. stat t (p @ [x]) = None)"
proof
  assume "lookup t p = Some (Dir [])"
  then show "stat t p = Some KDir \<and> (\<forall>x. stat t (p @ [x]) = None)"
    by (simp add: stat_append stat_KDir_iff)
next
  assume a: "stat t p = Some KDir \<and> (\<forall>x. stat t (p @ [x]) = None)"
  then obtain es where es: "lookup t p = Some (Dir es)" by (auto simp: stat_KDir_iff)
  have "es = []"
  proof (cases es)
    case Nil
    then show ?thesis .
  next
    case (Cons e es')
    obtain x c where "e = (x, c)" by (cases e)
    with Cons es have "stat t (p @ [x]) = Some (kind_of c)" by (simp add: stat_append)
    with a show ?thesis by simp
  qed
  with es show "lookup t p = Some (Dir [])" by simp
qed

section \<open>The walk to an entry\<close>

lemma at_path_success:
  assumes "fst (at_path mk f p t) = None" and "p \<noteq> []"
  shows "\<exists>new. f (lookup t p) = (None, new) \<and> reaches mk t p
           \<and> (\<forall>q. stat (snd (at_path mk f p t)) q = replaced p new (stat t) q)"
  using assms
proof (induction mk f p t rule: at_path.induct)
  case (1 mk f t)
  then show ?case by simp
next
  case (2 mk f x p c m)
  then show ?case by simp
next
  case (3 mk f x es)
  obtain e new where fe: "f (map_of es x) = (e, new)" by (cases "f (map_of es x)")
  with 3 have e: "e = None" by (cases new) auto
  have l: "lookup (Dir es) [x] = map_of es x" by (simp split: option.splits)
  have r: "reaches mk (Dir es) [x]"
    by (auto simp: reaches_def strict_prefix_def prefix_Cons)
  have "stat (snd (at_path mk f [x] (Dir es))) q = replaced [x] new (stat (Dir es)) q" for q
  proof (cases q)
    case Nil
    then show ?thesis using fe by (cases new) (auto simp: replaced_def)
  next
    case (Cons y q')
    then show ?thesis using fe
      by (cases new) (auto simp: replaced_def update_conv' delete_conv' split: option.splits)
  qed
  with fe e l r show ?case by auto
next
  case (4 mk f x y p es)
  show ?case
  proof (cases "map_of es x")
    case None
    show ?thesis
    proof (cases mk)
      case False
      with None 4(3) show ?thesis by simp
    next
      case True
      obtain e c where r: "at_path mk f (y # p) (Dir []) = (e, c)"
        by (cases "at_path mk f (y # p) (Dir [])")
      with None True 4(3) have e: "e = None" by simp
      from 4(1)[OF None True] r e obtain new where
        n: "f (lookup (Dir []) (y # p)) = (None, new)"
        and s: "\<forall>q. stat c q = replaced (y # p) new (stat (Dir [])) q"
        by auto
      have l: "lookup (Dir es) (x # y # p) = None" "lookup (Dir []) (y # p) = None"
        using None by simp_all
      have rr: "reaches mk (Dir es) (x # y # p)"
        unfolding reaches_def
      proof (intro allI impI)
        fix q assume q: "strict_prefix q (x # y # p)"
        show "stat (Dir es) q = Some KDir \<or> mk \<and> stat (Dir es) q = None"
        proof (cases q)
          case Nil
          then show ?thesis by simp
        next
          case (Cons z q')
          with q have "z = x" by (auto simp: strict_prefix_def prefix_Cons)
          with Cons None True show ?thesis by simp
        qed
      qed
      have "stat (snd (at_path mk f (x # y # p) (Dir es))) q
              = replaced (x # y # p) new (stat (Dir es)) q" for q
      proof (cases q)
        case Nil
        then show ?thesis using None True r by (simp add: replaced_def)
      next
        case (Cons z q')
        show ?thesis
        proof (cases "z = x")
          case True
          have "stat (snd (at_path mk f (x # y # p) (Dir es))) q = stat c q'"
            using None \<open>mk\<close> r Cons True by (simp add: update_conv')
          also have "\<dots> = replaced (y # p) new (stat (Dir [])) q'" using s by simp
          also have "\<dots> = replaced (x # y # p) new (stat (Dir es)) q"
            using Cons True None
            by (cases q') (auto simp: replaced_def strict_prefix_def prefix_Cons split: option.splits)
          finally show ?thesis .
        next
          case False
          then show ?thesis using None \<open>mk\<close> r Cons
            by (auto simp: replaced_def update_conv' strict_prefix_def prefix_Cons split: option.splits)
        qed
      qed
      with n l rr show ?thesis by auto
    qed
  next
    case (Some d)
    obtain e c where r: "at_path mk f (y # p) d = (e, c)"
      by (cases "at_path mk f (y # p) d")
    with Some 4(3) have e: "e = None" by simp
    from 4(2)[OF Some] r e obtain new where
      n: "f (lookup d (y # p)) = (None, new)"
      and rd: "reaches mk d (y # p)"
      and s: "\<forall>q. stat c q = replaced (y # p) new (stat d) q"
      by auto
    have l: "lookup (Dir es) (x # y # p) = lookup d (y # p)"
      using Some by simp
    have rr: "reaches mk (Dir es) (x # y # p)"
      unfolding reaches_def
    proof (intro allI impI)
      fix q assume q: "strict_prefix q (x # y # p)"
      show "stat (Dir es) q = Some KDir \<or> mk \<and> stat (Dir es) q = None"
      proof (cases q)
        case Nil
        then show ?thesis by simp
      next
        case (Cons z q')
        with q have z: "z = x" and q': "strict_prefix q' (y # p)"
          by (auto simp: strict_prefix_def prefix_Cons)
        from rd q' have "stat d q' = Some KDir \<or> mk \<and> stat d q' = None"
          by (simp add: reaches_def)
        with Cons z Some show ?thesis by simp
      qed
    qed
    have "stat (snd (at_path mk f (x # y # p) (Dir es))) q
            = replaced (x # y # p) new (stat (Dir es)) q" for q
    proof (cases q)
      case Nil
      then show ?thesis using Some r by (simp add: replaced_def)
    next
      case (Cons z q')
      show ?thesis
      proof (cases "z = x")
        case True
        have "stat (snd (at_path mk f (x # y # p) (Dir es))) q = stat c q'"
          using Some r Cons True by (simp add: update_conv')
        also have "\<dots> = replaced (y # p) new (stat d) q'" using s by simp
        also have "\<dots> = replaced (x # y # p) new (stat (Dir es)) q"
          using Cons True Some
          by (auto simp: replaced_def strict_prefix_def prefix_Cons split: option.splits)
        finally show ?thesis .
      next
        case False
        then show ?thesis using Some r Cons
          by (auto simp: replaced_def update_conv' strict_prefix_def prefix_Cons split: option.splits)
      qed
    qed
    with n l rr show ?thesis by auto
  qed
qed

section \<open>What a successful operation does\<close>

lemma replaced_simps:
  "replaced p new old (p @ r) = (case new of None \<Rightarrow> None | Some c \<Rightarrow> stat c r)"
  "replaced p new old p = (case new of None \<Rightarrow> None | Some c \<Rightarrow> Some (kind_of c))"
  "\<not> prefix p q \<Longrightarrow> strict_prefix q p \<Longrightarrow> replaced p new old q = Some KDir"
  "\<not> prefix p q \<Longrightarrow> \<not> strict_prefix q p \<Longrightarrow> replaced p new old q = old q"
  by (simp_all add: replaced_def split: option.splits)

lemma reaches_strict_prefix:
  "reaches False t p \<Longrightarrow> strict_prefix q p \<Longrightarrow> stat t q = Some KDir"
  by (simp add: reaches_def)

lemma stat_nondir_Cons: "\<forall>xs. d \<noteq> Dir xs \<Longrightarrow> stat d (y # ys) = None"
  by (cases d) auto

lemma path_cases:
  obtains (below) r where "q = p @ r"
  | (above) "\<not> prefix p q" "strict_prefix q p"
  | (apart) "\<not> prefix p q" "\<not> strict_prefix q p"
  by (auto simp: prefix_def)

lemma makedirs_success:
  assumes "makedirs p t = (None, t')" and "p \<noteq> []"
  shows "stat t p = None"
    and "stat t' q = (if prefix q p \<and> stat t q = None then Some KDir else stat t q)"
proof -
  from assms have f: "fst (at_path True makedirs_leaf p t) = None"
    and t': "t' = snd (at_path True makedirs_leaf p t)" by (simp_all add: makedirs_def)
  from at_path_success[OF f assms(2)] obtain new where
    n: "makedirs_leaf (lookup t p) = (None, new)" and r: "reaches True t p"
    and s: "\<And>q. stat t' q = replaced p new (stat t) q" unfolding t' by blast
  from n have l: "lookup t p = None" and new: "new = Some (Dir [])"
    by (cases "lookup t p"; simp)+
  from l show a: "stat t p = None" by (simp add: stat_None_iff)
  show "stat t' q = (if prefix q p \<and> stat t q = None then Some KDir else stat t q)"
  proof (cases q p rule: path_cases)
    case (below r)
    show ?thesis
    proof (cases r)
      case Nil
      with below a s[of q] new show ?thesis by (simp add: replaced_simps)
    next
      case (Cons x r')
      with below have sp: "strict_prefix p q" by (simp add: strict_prefix_def)
      then have "stat t q = None" using a stat_below_nondir by simp
      moreover from sp have "\<not> prefix q p" by (auto simp: strict_prefix_def)
      ultimately show ?thesis using below Cons s[of q] new by (simp add: replaced_simps)
    qed
  next
    case above
    with r have "stat t q = Some KDir \<or> stat t q = None" by (auto simp: reaches_def)
    moreover from above have "prefix q p" by (simp add: strict_prefix_def)
    ultimately show ?thesis using above s[of q] by (auto simp: replaced_simps)
  next
    case apart
    have "\<not> prefix q p"
    proof
      assume "prefix q p"
      then have "q = p \<or> strict_prefix q p" by (auto simp: strict_prefix_def)
      with apart show False by auto
    qed
    with apart s[of q] show ?thesis by (simp add: replaced_simps)
  qed
qed

lemma remove_success:
  assumes "remove p t = (None, t')" and "p \<noteq> []"
  shows "\<exists>c m. lookup t p = Some (File c m)"
    and "stat t' q = (if q = p then None else stat t q)"
proof -
  from assms have f: "fst (at_path False remove_leaf p t) = None"
    and t': "t' = snd (at_path False remove_leaf p t)" by (simp_all add: remove_def)
  from at_path_success[OF f assms(2)] obtain new where
    n: "remove_leaf (lookup t p) = (None, new)" and r: "reaches False t p"
    and s: "\<And>q. stat t' q = replaced p new (stat t) q" unfolding t' by blast
  from n obtain c m where l: "lookup t p = Some (File c m)" and new: "new = None"
    by (cases "lookup t p" rule: remove_leaf.cases) auto
  from l show "\<exists>c m. lookup t p = Some (File c m)" by blast
  from l have k: "stat t p = Some (KFile c m)" by (simp add: stat_KFile_iff)
  show "stat t' q = (if q = p then None else stat t q)"
  proof (cases q p rule: path_cases)
    case (below r)
    show ?thesis
    proof (cases r)
      case Nil
      with below s[of q] new show ?thesis by (simp add: replaced_simps)
    next
      case (Cons x r')
      with below have sp: "strict_prefix p q" by (simp add: strict_prefix_def)
      then have "stat t q = None" using k stat_below_nondir by simp
      then show ?thesis using below s[of q] new by (simp add: replaced_simps)
    qed
  next
    case above
    with r have "stat t q = Some KDir" by (simp add: reaches_strict_prefix)
    moreover from above have "q \<noteq> p" by auto
    ultimately show ?thesis using above s[of q] by (simp add: replaced_simps)
  next
    case apart
    then have "q \<noteq> p" by auto
    with apart s[of q] show ?thesis by (simp add: replaced_simps)
  qed
qed

lemma rmdir_success:
  assumes "rmdir p t = (None, t')" and "p \<noteq> []"
  shows "lookup t p = Some (Dir [])"
    and "stat t' q = (if q = p then None else stat t q)"
proof -
  from assms have f: "fst (at_path False rmdir_leaf p t) = None"
    and t': "t' = snd (at_path False rmdir_leaf p t)" by (simp_all add: rmdir_def)
  from at_path_success[OF f assms(2)] obtain new where
    n: "rmdir_leaf (lookup t p) = (None, new)" and r: "reaches False t p"
    and s: "\<And>q. stat t' q = replaced p new (stat t) q" unfolding t' by blast
  from n have l: "lookup t p = Some (Dir [])" and new: "new = None"
    by (cases "lookup t p" rule: rmdir_leaf.cases; simp)+
  from l show "lookup t p = Some (Dir [])" .
  show "stat t' q = (if q = p then None else stat t q)"
  proof (cases q p rule: path_cases)
    case (below r)
    show ?thesis
    proof (cases r)
      case Nil
      with below s[of q] new show ?thesis by (simp add: replaced_simps)
    next
      case (Cons x r')
      with below l have "stat t q = None" by (simp add: stat_append)
      then show ?thesis using below s[of q] new by (simp add: replaced_simps)
    qed
  next
    case above
    with r have "stat t q = Some KDir" by (simp add: reaches_strict_prefix)
    moreover from above have "q \<noteq> p" by auto
    ultimately show ?thesis using above s[of q] by (simp add: replaced_simps)
  next
    case apart
    then have "q \<noteq> p" by auto
    with apart s[of q] show ?thesis by (simp add: replaced_simps)
  qed
qed

lemma copy2_success:
  assumes "copy2 src sp p t = (None, t')" and "p \<noteq> []"
  obtains c m where "lookup src sp = Some (File c m)"
    and "stat t p \<noteq> Some KDir \<Longrightarrow> stat t' q = (if q = p then Some (KFile c m) else stat t q)"
    and "stat t p = Some KDir \<Longrightarrow>
           stat t' q = (if q = p @ [last sp] then Some (KFile c m) else stat t q)"
    and "reaches False t p"
proof -
  from assms(1) obtain c m where src: "lookup src sp = Some (File c m)"
    by (auto simp: copy2_def split: option.splits node.splits)
  let ?f = "copy2_at (last sp) (File c m)"
  from assms src have f: "fst (at_path False ?f p t) = None"
    and t': "t' = snd (at_path False ?f p t)" by (simp_all add: copy2_def)
  from at_path_success[OF f assms(2)] obtain new where
    n: "?f (lookup t p) = (None, new)" and r: "reaches False t p"
    and s: "\<And>q. stat t' q = replaced p new (stat t) q" unfolding t' by blast
  have above: "stat t' q = stat t q" if "\<not> prefix p q" for q
  proof (cases "strict_prefix q p")
    case True
    with r have "stat t q = Some KDir" by (simp add: reaches_strict_prefix)
    with that True s[of q] show ?thesis by (simp add: replaced_simps)
  next
    case False
    with that s[of q] show ?thesis by (simp add: replaced_simps)
  qed
  have nd: "stat t' q = (if q = p then Some (KFile c m) else stat t q)"
    if nd: "stat t p \<noteq> Some KDir"
  proof -
    have new: "new = Some (File c m)"
    proof (cases "lookup t p")
      case None
      with n show ?thesis by (simp add: copy2_at_def)
    next
      case (Some d)
      with nd obtain c' m' where "d = File c' m'" by (cases d) (auto simp: stat_KDir_iff)
      with Some n show ?thesis by (simp add: copy2_at_def)
    qed
    show ?thesis
    proof (cases "prefix p q")
      case False
      then have "q \<noteq> p" by auto
      with False above show ?thesis by simp
    next
      case True
      then obtain r where q: "q = p @ r" by (auto simp: prefix_def)
      show ?thesis
      proof (cases r)
        case Nil
        with q s[of q] new show ?thesis by (simp add: replaced_simps)
      next
        case (Cons x r')
        with q have "strict_prefix p q" by (simp add: strict_prefix_def)
        then have "stat t q = None" using nd stat_below_nondir by simp
        then show ?thesis using q Cons s[of q] new by (simp add: replaced_simps)
      qed
    qed
  qed
  have d: "stat t' q = (if q = p @ [last sp] then Some (KFile c m) else stat t q)"
    if d: "stat t p = Some KDir"
  proof -
    from d obtain es where es: "lookup t p = Some (Dir es)" by (auto simp: stat_KDir_iff)
    with n have new: "new = Some (Dir (AList.update (last sp) (File c m) es))"
      and nodir: "\<forall>xs. map_of es (last sp) \<noteq> Some (Dir xs)"
      by (auto simp: copy2_at_def split: option.splits node.splits sum.splits)
    show ?thesis
    proof (cases "prefix p q")
      case False
      then have "q \<noteq> p @ [last sp]" by auto
      with False above show ?thesis by simp
    next
      case True
      then obtain r where q: "q = p @ r" by (auto simp: prefix_def)
      have "stat t' q = stat (Dir (AList.update (last sp) (File c m) es)) r"
        using q s[of q] new by (simp add: replaced_simps)
      also have "\<dots> = (if r = [last sp] then Some (KFile c m) else stat (Dir es) r)"
      proof (cases r)
        case Nil
        then show ?thesis by simp
      next
        case (Cons x r')
        show ?thesis
        proof (cases "x = last sp")
          case False
          with Cons show ?thesis by (simp add: update_conv')
        next
          case True
          with Cons nodir show ?thesis
            by (cases r'; cases "map_of es (last sp)")
               (auto simp: update_conv' stat_nondir_Cons split: option.splits node.splits)
        qed
      qed
      also have "stat (Dir es) r = stat t q" using q es by (simp add: stat_append)
      finally show ?thesis using q by simp
    qed
  qed
  from that[OF src nd d r] show thesis by blast
qed

section \<open>copytree\<close>

lemma statopt_simps [simp]:
  "statopt None q = None" "statopt (Some c) q = stat c q"
  by (simp_all add: statopt_def)

lemma stat_Cons_same: "stat (Dir ((x, n) # ses)) (x # q) = stat n q"
  by simp

lemma stat_Cons_other: "y \<noteq> x \<Longrightarrow> stat (Dir ((x, n) # ses)) (y # q) = stat (Dir ses) (y # q)"
  by simp

lemma stat_update_same: "stat (Dir (AList.update x c des)) (x # q) = stat c q"
  by (simp add: update_conv')

lemma stat_update_other:
  "y \<noteq> x \<Longrightarrow> stat (Dir (AList.update x c des)) (y # q) = stat (Dir des) (y # q)"
  by (simp add: update_conv')

lemma stat_absent: "x \<notin> fst ` set ses \<Longrightarrow> stat (Dir ses) (x # q) = None"
proof -
  assume "x \<notin> fst ` set ses"
  then have "map_of ses x = None" by (simp add: map_of_eq_None_iff)
  then show ?thesis by simp
qed

lemma stat_entry: "stat (Dir des) (x # q) = statopt (map_of des x) q"
  by (simp add: statopt_def)

lemma wf_Cons:
  "wf_node (Dir ((x, n) # ses)) \<longleftrightarrow> x \<notin> fst ` set ses \<and> wf_node n \<and> wf_node (Dir ses)"
  by auto

lemma copy_entries_file_success:
  assumes "copy_entries ((x, File c m) # ses) des = ([], des')"
  obtains f where "copy2_leaf x (File c m) (map_of des x) = Inr f"
    and "copy_entries ses (AList.update x f des) = ([], des')"
  using assms by (auto split: sum.splits prod.splits)

lemma copy_entries_dir_success:
  assumes "copy_entries ((x, Dir ses') # ses) des = ([], des')"
  obtains c' where "copytree_at ses' (map_of des x) = Inr ([], c')"
    and "copy_entries ses (AList.update x c' des) = ([], des')"
  using assms by (auto split: sum.splits prod.splits)

lemma copytree_at_success:
  assumes "copytree_at ses dopt = Inr ([], d')"
  obtains des des' where "dopt = None \<and> des = [] \<or> dopt = Some (Dir des)"
    and "copy_entries ses des = ([], des')" and "d' = Dir des'"
proof (cases dopt)
  case None
  with assms that[of "[]"] show ?thesis by (auto split: prod.splits)
next
  case (Some d)
  with assms that show ?thesis by (cases d) (auto split: prod.splits)
qed

lemma copytree_overlay:
  shows "wf_node (Dir ses) \<Longrightarrow> copytree_at ses dopt = Inr ([], d') \<Longrightarrow>
         (\<And>q c m. list_all ok q \<Longrightarrow> stat (Dir ses) q = Some (KFile c m) \<Longrightarrow> statopt dopt q \<noteq> Some KDir) \<Longrightarrow>
         list_all ok q \<Longrightarrow> stat d' q = (statopt dopt ++ stat (Dir ses)) q"
    and "wf_node (Dir ses) \<Longrightarrow> copy_entries ses des = ([], des') \<Longrightarrow>
         (\<And>q c m. list_all ok q \<Longrightarrow> stat (Dir ses) q = Some (KFile c m) \<Longrightarrow> stat (Dir des) q \<noteq> Some KDir) \<Longrightarrow>
         list_all ok q \<Longrightarrow> stat (Dir des') q = (stat (Dir des) ++ stat (Dir ses)) q"
proof (induction ses dopt and ses des arbitrary: d' q and des' q rule: copytree_at_copy_entries.induct)
  case (1 ses c m)
  then show ?case by simp
next
  case (2 ses des)
  from 2(3) obtain des' where e: "copy_entries ses des = ([], des')" and d: "d' = Dir des'"
    by (auto split: prod.splits)
  have "stat (Dir des') q = (stat (Dir des) ++ stat (Dir ses)) q"
  proof (rule 2(1)[OF 2(2) e _ 2(5)])
    fix r c m assume "list_all ok r" "stat (Dir ses) r = Some (KFile c m)"
    then show "stat (Dir des) r \<noteq> Some KDir" using 2(4)[of r c m] by simp
  qed
  with d show ?case by simp
next
  case (3 ses)
  from 3(3) obtain des' where e: "copy_entries ses [] = ([], des')" and d: "d' = Dir des'"
    by (auto split: prod.splits)
  have c: "stat (Dir []) q \<noteq> Some KDir" if "stat (Dir ses) q = Some (KFile c m)" for q c m
    using that by (cases q) auto
  have "stat (Dir des') q = (stat (Dir []) ++ stat (Dir ses)) q"
  proof (rule 3(1)[OF 3(2) e _ 3(5)])
    fix r c m assume "list_all ok r" "stat (Dir ses) r = Some (KFile c m)"
    then show "stat (Dir []) r \<noteq> Some KDir" using c by blast
  qed
  with d show ?case
    by (cases q) (auto simp: map_add_def split: option.splits)
next
  case (4 des)
  then show ?case by (cases q) (auto simp: map_add_def split: option.splits)
next
  case (5 x c m ses des)
  from 5(3) have nx: "x \<notin> fst ` set ses" and wf: "wf_node (Dir ses)" by (simp_all add: wf_Cons)
  from 5(4) obtain f where f: "copy2_leaf x (File c m) (map_of des x) = Inr f"
    and e: "copy_entries ses (AList.update x f des) = ([], des')"
    by (rule copy_entries_file_success)
  have compat: "stat (Dir (AList.update x f des)) q \<noteq> Some KDir"
    if "list_all ok q" "stat (Dir ses) q = Some (KFile c' m')" for q c' m'
  proof (cases q)
    case Nil
    with that show ?thesis by simp
  next
    case (Cons y q')
    with that nx have "y \<noteq> x" using stat_absent by fastforce
    with Cons that 5(5)[of q c' m'] show ?thesis
      by (simp add: stat_update_other stat_Cons_other del: stat_Dir)
  qed
  have ih: "stat (Dir des') q = (stat (Dir (AList.update x f des)) ++ stat (Dir ses)) q"
  proof (rule 5(2)[OF f wf e _ 5(6)])
    fix r c' m' assume "list_all ok r" "stat (Dir ses) r = Some (KFile c' m')"
    then show "stat (Dir (AList.update x f des)) r \<noteq> Some KDir" by (rule compat)
  qed
  show ?case
  proof (cases q)
    case Nil
    then show ?thesis by (simp add: map_add_def)
  next
    case (Cons y q')
    show ?thesis
    proof (cases "y = x")
      case False
      with Cons ih show ?thesis
        by (simp add: map_add_def stat_update_other stat_Cons_other split: option.splits del: stat_Dir)
    next
      case True
      with Cons 5(6) have vx: "list_all ok [x]" by simp
      from 5(5)[OF vx, of c m] have nd: "stat (Dir des) [x] \<noteq> Some KDir" by simp
      have fm: "f = File c m"
      proof (cases "map_of des x")
        case None
        with f show ?thesis by simp
      next
        case (Some d)
        with nd obtain c' m' where "d = File c' m'" by (cases d) auto
        with Some f show ?thesis by simp
      qed
      have l: "stat (Dir des') q = stat (File c m) q'"
        using ih Cons True nx fm
        by (simp add: map_add_def stat_update_same stat_absent split: option.splits del: stat_Dir)
      show ?thesis
      proof (cases q')
        case Nil
        with l Cons True show ?thesis by (simp add: map_add_def)
      next
        case (Cons z q'')
        have "stat (Dir des) (x # z # q'') = None"
        proof (cases "map_of des x")
          case None
          then show ?thesis by simp
        next
          case (Some d)
          with nd have "\<forall>xs. d \<noteq> Dir xs" by auto
          then have "stat d (z # q'') = None" by (rule stat_nondir_Cons)
          with Some show ?thesis by simp
        qed
        with l Cons \<open>q = y # q'\<close> True show ?thesis by (simp add: map_add_def)
      qed
    qed
  qed
next
  case (6 x ses' ses des)
  from 6(4) have nx: "x \<notin> fst ` set ses" and wf: "wf_node (Dir ses)" and wf': "wf_node (Dir ses')"
    by (simp_all add: wf_Cons)
  from 6(5) obtain c' where t: "copytree_at ses' (map_of des x) = Inr ([], c')"
    and e: "copy_entries ses (AList.update x c' des) = ([], des')"
    by (rule copy_entries_dir_success)
  have compat: "stat (Dir (AList.update x c' des)) q \<noteq> Some KDir"
    if "list_all ok q" "stat (Dir ses) q = Some (KFile c m)" for q c m
  proof (cases q)
    case Nil
    with that show ?thesis by simp
  next
    case (Cons y q')
    with that nx have "y \<noteq> x" using stat_absent by fastforce
    with Cons that 6(6)[of q c m] show ?thesis
      by (simp add: stat_update_other stat_Cons_other del: stat_Dir)
  qed
  have ih: "stat (Dir des') q = (stat (Dir (AList.update x c' des)) ++ stat (Dir ses)) q"
  proof (rule 6(3)[OF t refl wf e _ 6(7)])
    fix r c m assume "list_all ok r" "stat (Dir ses) r = Some (KFile c m)"
    then show "stat (Dir (AList.update x c' des)) r \<noteq> Some KDir" by (rule compat)
  qed
  show ?case
  proof (cases q)
    case Nil
    then show ?thesis by (simp add: map_add_def)
  next
    case (Cons y q')
    show ?thesis
    proof (cases "y = x")
      case False
      with Cons ih show ?thesis
        by (simp add: map_add_def stat_update_other stat_Cons_other split: option.splits del: stat_Dir)
    next
      case True
      with Cons 6(7) have vx: "ok x" and vq': "list_all ok q'" by simp_all
      have sub: "statopt (map_of des x) r \<noteq> Some KDir"
        if "list_all ok r" "stat (Dir ses') r = Some (KFile c m)" for r c m
        using 6(6)[of "x # r" c m] that vx by (simp add: stat_entry del: stat_Dir)
      have "stat c' q' = (statopt (map_of des x) ++ stat (Dir ses')) q'"
      proof (rule 6(1)[OF wf' t _ vq'])
        fix r c m assume "list_all ok r" "stat (Dir ses') r = Some (KFile c m)"
        then show "statopt (map_of des x) r \<noteq> Some KDir" by (rule sub)
      qed
      moreover have "stat (Dir des') q = stat c' q'"
        using ih Cons True nx
        by (simp add: map_add_def stat_update_same stat_absent split: option.splits del: stat_Dir)
      ultimately show ?thesis using Cons True
        by (simp add: map_add_def stat_entry split: option.splits del: stat_Dir)
    qed
  qed
qed

lemma butlast_Cons_None:
  assumes "stat (Dir ses) (butlast (y # q')) = None"
  shows "q' \<noteq> [] \<and> stat (Dir ses) (y # butlast q') = None"
  using assms by (cases q') auto

lemma copytree_frame:
  shows "wf_node (Dir ses) \<Longrightarrow> copytree_at ses dopt = Inr ([], d') \<Longrightarrow>
         q \<noteq> [] \<Longrightarrow> stat (Dir ses) (butlast q) = None \<Longrightarrow> stat d' q = statopt dopt q"
    and "wf_node (Dir ses) \<Longrightarrow> copy_entries ses des = ([], des') \<Longrightarrow>
         q \<noteq> [] \<Longrightarrow> stat (Dir ses) (butlast q) = None \<Longrightarrow> stat (Dir des') q = stat (Dir des) q"
proof (induction ses dopt and ses des arbitrary: d' q and des' q rule: copytree_at_copy_entries.induct)
  case (1 ses c m)
  then show ?case by simp
next
  case (2 ses des)
  from 2(3) obtain des' where e: "copy_entries ses des = ([], des')" and d: "d' = Dir des'"
    by (auto split: prod.splits)
  from 2(1)[OF 2(2) e 2(4) 2(5)] d show ?case by simp
next
  case (3 ses)
  from 3(3) obtain des' where e: "copy_entries ses [] = ([], des')" and d: "d' = Dir des'"
    by (auto split: prod.splits)
  from 3(1)[OF 3(2) e 3(4) 3(5)] d 3(4) show ?case by (cases q) auto
next
  case (4 des)
  then show ?case by simp
next
  case (5 x c m ses des)
  from 5(3) have nx: "x \<notin> fst ` set ses" and wf: "wf_node (Dir ses)" by (simp_all add: wf_Cons)
  from 5(4) obtain f where f: "copy2_leaf x (File c m) (map_of des x) = Inr f"
    and e: "copy_entries ses (AList.update x f des) = ([], des')"
    by (rule copy_entries_file_success)
  from 5(5) obtain y q' where q: "q = y # q'" by (cases q) auto
  from 5(6) q have q': "q' \<noteq> []" and b: "stat (Dir ((x, File c m) # ses)) (y # butlast q') = None"
    using butlast_Cons_None by blast+
  from q q' have bq: "butlast q = y # butlast q'" by simp
  show ?case
  proof (cases "y = x")
    case False
    with b have "stat (Dir ses) (butlast q) = None" using bq by (simp add: stat_Cons_other del: stat_Dir)
    from 5(2)[OF f wf e 5(5) this] False q show ?thesis
      by (simp add: stat_update_other del: stat_Dir)
  next
    case True
    have "stat (Dir ses) (butlast q) = None" using bq True nx by (simp add: stat_absent del: stat_Dir)
    from 5(2)[OF f wf e 5(5) this] True q have l: "stat (Dir des') q = stat f q'"
      by (simp add: stat_update_same del: stat_Dir)
    from b True have "butlast q' \<noteq> []" by (cases "butlast q'") simp_all
    then obtain z q'' where q'': "q' = z # q''" "q'' \<noteq> []" by (cases q'; cases "tl q'") auto
    show ?thesis
    proof (cases "map_of des x")
      case None
      with f have "f = File c m" by simp
      with l q True None q' show ?thesis by (cases q') simp_all
    next
      case (Some d)
      show ?thesis
      proof (cases d)
        case (File c' m')
        with Some f have "f = File c m" by simp
        with l q True Some File q' show ?thesis by (cases q') simp_all
      next
        case (Dir es)
        with Some f have fd: "f = Dir (AList.update x (File c m) es)"
          and nodir: "\<forall>xs. map_of es x \<noteq> Some (Dir xs)"
          by (auto split: option.splits node.splits)
        have "stat f q' = stat (Dir es) q'"
        proof (cases "z = x")
          case False
          with fd q'' show ?thesis by (simp add: stat_update_other del: stat_Dir)
        next
          case True
          have "stat (Dir es) (x # q'') = None"
          proof (cases "map_of es x")
            case None
            then show ?thesis by simp
          next
            case (Some n)
            with nodir have "\<forall>xs. n \<noteq> Dir xs" by auto
            with q''(2) have "stat n q'' = None" by (cases q'') (simp_all add: stat_nondir_Cons)
            with Some show ?thesis by simp
          qed
          moreover have "stat f (x # q'') = None"
            using fd q''(2) by (cases q'') (simp_all add: stat_update_same del: stat_Dir)
          ultimately show ?thesis using True q'' by simp
        qed
        with l q \<open>y = x\<close> Some Dir show ?thesis by simp
      qed
    qed
  qed
next
  case (6 x ses' ses des)
  from 6(4) have nx: "x \<notin> fst ` set ses" and wf: "wf_node (Dir ses)" and wf': "wf_node (Dir ses')"
    by (simp_all add: wf_Cons)
  from 6(5) obtain c' where t: "copytree_at ses' (map_of des x) = Inr ([], c')"
    and e: "copy_entries ses (AList.update x c' des) = ([], des')"
    by (rule copy_entries_dir_success)
  from 6(6) obtain y q' where q: "q = y # q'" by (cases q) auto
  from 6(7) q have q': "q' \<noteq> []" and b: "stat (Dir ((x, Dir ses') # ses)) (y # butlast q') = None"
    using butlast_Cons_None by blast+
  from q q' have bq: "butlast q = y # butlast q'" by simp
  show ?case
  proof (cases "y = x")
    case False
    with b have "stat (Dir ses) (butlast q) = None" using bq by (simp add: stat_Cons_other del: stat_Dir)
    from 6(3)[OF t refl wf e 6(6) this] False q show ?thesis
      by (simp add: stat_update_other del: stat_Dir)
  next
    case True
    have "stat (Dir ses) (butlast q) = None" using bq True nx by (simp add: stat_absent del: stat_Dir)
    from 6(3)[OF t refl wf e 6(6) this] True q have l: "stat (Dir des') q = stat c' q'"
      by (simp add: stat_update_same del: stat_Dir)
    from b True have "stat (Dir ses') (butlast q') = None" by simp
    from 6(1)[OF wf' t q' this] l q True show ?thesis by (simp add: stat_entry del: stat_Dir)
  qed
qed

section \<open>Well-formed trees stay well-formed\<close>

lemma list_all_update:
  "list_all P es \<Longrightarrow> P (k, v) \<Longrightarrow> list_all P (AList.update k v es)"
  by (induction es) auto

lemma list_all_delete: "list_all P es \<Longrightarrow> list_all P (AList.delete k es)"
  by (induction es) auto

lemma wf_update: "wf_node (Dir es) \<Longrightarrow> wf_node c \<Longrightarrow> wf_node (Dir (AList.update x c es))"
  by (simp add: distinct_update list_all_update)

lemma wf_delete: "wf_node (Dir es) \<Longrightarrow> wf_node (Dir (AList.delete x es))"
  by (simp add: distinct_delete list_all_delete)

lemma wf_entry: "wf_node (Dir es) \<Longrightarrow> map_of es x = Some c \<Longrightarrow> wf_node c"
  by (auto simp: list_all_iff dest: map_of_SomeD)

lemma wf_lookup: "wf_node t \<Longrightarrow> lookup t p = Some c \<Longrightarrow> wf_node c"
proof (induction t p rule: lookup.induct)
  case (1 t)
  then show ?case by simp
next
  case (2 c m x p)
  then show ?case by simp
next
  case (3 es x p)
  from 3(3) obtain d where d: "map_of es x = Some d" and l: "lookup d p = Some c"
    by (auto split: option.splits)
  from wf_entry[OF 3(2) d] 3(1)[OF d _ l] show ?case by simp
qed

lemma wf_opt_simps [simp]: "wf_opt None" "wf_opt (Some c) = wf_node c"
  by (simp_all add: wf_opt_def)

lemma wf_opt_map_of: "wf_node (Dir es) \<Longrightarrow> wf_opt (map_of es x)"
proof (cases "map_of es x")
  case None
  then show ?thesis by simp
next
  case (Some c)
  assume "wf_node (Dir es)"
  from wf_entry[OF this Some] Some show ?thesis by simp
qed

lemma at_path_wf:
  assumes "wf_node t" and "\<And>cur. wf_opt cur \<Longrightarrow> wf_opt (snd (f cur))"
  shows "wf_node (snd (at_path mk f p t))"
  using assms
proof (induction mk f p t rule: at_path.induct)
  case (1 mk f t)
  obtain e r where fr: "f (Some t) = (e, r)" by (cases "f (Some t)")
  from 1(2)[of "Some t"] 1(1) have "wf_opt (snd (f (Some t)))" by simp
  then have "wf_opt r" unfolding fr by simp
  with fr 1(1) show ?case by (cases r; cases e) simp_all
next
  case (2 mk f x p c m)
  then show ?case by simp
next
  case (3 mk f x es)
  obtain e r where fr: "f (map_of es x) = (e, r)" by (cases "f (map_of es x)")
  from 3(2)[OF wf_opt_map_of[OF 3(1), of x]] have "wf_opt (snd (f (map_of es x)))" .
  then have "wf_opt r" unfolding fr by simp
  with fr 3(1) show ?case
    by (cases r) (simp_all add: wf_update wf_delete del: wf_node.simps)
next
  case (4 mk f x y p es)
  show ?case
  proof (cases "map_of es x")
    case None
    show ?thesis
    proof (cases mk)
      case True
      have "wf_node (Dir [])" by simp
      from 4(1)[OF None True this 4(4)] have "wf_node (snd (at_path mk f (y # p) (Dir [])))" .
      with 4(3) None True show ?thesis
        by (cases "at_path mk f (y # p) (Dir [])") (simp add: wf_update del: wf_node.simps)
    next
      case False
      with None 4(3) show ?thesis by simp
    qed
  next
    case (Some c)
    from wf_entry[OF 4(3) Some] have "wf_node c" .
    from 4(2)[OF Some this 4(4)] have "wf_node (snd (at_path mk f (y # p) c))" .
    with 4(3) Some show ?thesis
      by (cases "at_path mk f (y # p) c") (simp add: wf_update del: wf_node.simps)
  qed
qed

lemma copy2_leaf_wf:
  "wf_opt cur \<Longrightarrow> copy2_leaf bn (File c m) cur = Inr f \<Longrightarrow> wf_node f"
  by (cases "(bn, File c m, cur)" rule: copy2_leaf.cases)
     (auto split: option.splits node.splits intro: wf_update simp del: wf_node.simps(2))

lemma copytree_at_wf:
  shows "wf_node (Dir ses) \<Longrightarrow> wf_opt dopt \<Longrightarrow> copytree_at ses dopt = Inr (errs, d') \<Longrightarrow> wf_node d'"
    and "wf_node (Dir ses) \<Longrightarrow> wf_node (Dir des) \<Longrightarrow> copy_entries ses des = (errs, des')
         \<Longrightarrow> wf_node (Dir des')"
proof (induction ses dopt and ses des arbitrary: errs d' and errs des'
    rule: copytree_at_copy_entries.induct)
  case (1 ses c m)
  then show ?case by simp
next
  case (2 ses des)
  from 2(4) obtain des' where e: "copy_entries ses des = (errs, des')" and d: "d' = Dir des'"
    by (auto split: prod.splits)
  from 2(1)[OF 2(2) _ e] 2(3) d show ?case by simp
next
  case (3 ses)
  from 3(4) obtain des' where e: "copy_entries ses [] = (errs, des')" and d: "d' = Dir des'"
    by (auto split: prod.splits)
  from 3(1)[OF 3(2) _ e] d show ?case by simp
next
  case (4 des)
  then show ?case by simp
next
  case (5 x c m ses des)
  from 5(3) have wf: "wf_node (Dir ses)" by (simp add: wf_Cons)
  show ?case
  proof (cases "copy2_leaf x (File c m) (map_of des x)")
    case (Inl e)
    with 5(5) obtain errs' where "copy_entries ses des = (errs', des')"
      by (auto split: prod.splits)
    from 5(1)[OF Inl wf 5(4) this] show ?thesis .
  next
    case (Inr f)
    with 5(5) have e: "copy_entries ses (AList.update x f des) = (errs, des')" by simp
    from copy2_leaf_wf[OF wf_opt_map_of[OF 5(4)] Inr] have "wf_node f" .
    from 5(2)[OF Inr wf wf_update[OF 5(4) this] e] show ?thesis .
  qed
next
  case (6 x ses' ses des)
  from 6(4) have wf: "wf_node (Dir ses)" and wf': "wf_node (Dir ses')" by (simp_all add: wf_Cons)
  show ?case
  proof (cases "copytree_at ses' (map_of des x)")
    case (Inl e)
    with 6(6) obtain errs' where "copy_entries ses des = (errs', des')"
      by (auto split: prod.splits)
    from 6(2)[OF Inl wf 6(5) this] show ?thesis .
  next
    case (Inr b)
    obtain es1 c' where b: "b = (es1, c')" by (cases b)
    with Inr 6(6) obtain errs' where e: "copy_entries ses (AList.update x c' des) = (errs', des')"
      by (auto split: prod.splits)
    from 6(1)[OF wf' wf_opt_map_of[OF 6(5)]] Inr b have "wf_node c'" by simp
    from 6(3)[OF Inr b[symmetric] wf wf_update[OF 6(5) this] e] show ?thesis .
  qed
qed

lemma makedirs_wf: "wf_node t \<Longrightarrow> wf_node (snd (makedirs p t))"
  unfolding makedirs_def
proof (rule at_path_wf)
  fix cur show "wf_opt cur \<Longrightarrow> wf_opt (snd (makedirs_leaf cur))"
    by (cases cur) simp_all
qed

lemma remove_wf: "wf_node t \<Longrightarrow> wf_node (snd (remove p t))"
  unfolding remove_def
proof (rule at_path_wf)
  fix cur show "wf_opt cur \<Longrightarrow> wf_opt (snd (remove_leaf cur))"
    by (cases cur rule: remove_leaf.cases) simp_all
qed

lemma rmdir_wf: "wf_node t \<Longrightarrow> wf_node (snd (rmdir p t))"
  unfolding rmdir_def
proof (rule at_path_wf)
  fix cur show "wf_opt cur \<Longrightarrow> wf_opt (snd (rmdir_leaf cur))"
    by (cases cur rule: rmdir_leaf.cases) simp_all
qed

lemma copy2_wf: "wf_node t \<Longrightarrow> wf_node (snd (copy2 src sp p t))"
proof (cases "lookup src sp")
  case None
  then show "wf_node t \<Longrightarrow> ?thesis" by (simp add: copy2_def)
next
  case (Some n)
  assume wf: "wf_node t"
  show ?thesis
  proof (cases n)
    case (Dir es)
    with Some wf show ?thesis by (simp add: copy2_def)
  next
    case (File c m)
    have "wf_node (snd (at_path False (copy2_at (last sp) (File c m)) p t))"
    proof (rule at_path_wf[OF wf])
      fix cur assume "wf_opt cur"
      then show "wf_opt (snd (copy2_at (last sp) (File c m) cur))"
        by (auto simp: copy2_at_def split: sum.splits dest: copy2_leaf_wf)
    qed
    with Some File show ?thesis by (simp add: copy2_def)
  qed
qed

lemma copytree_wf:
  assumes "wf_node t" and "wf_node src"
  shows "wf_node (snd (copytree src sp p t))"
proof (cases "lookup src sp")
  case None
  with assms show ?thesis by (simp add: copytree_def)
next
  case (Some n)
  show ?thesis
  proof (cases n)
    case (File c m)
    with Some assms show ?thesis by (simp add: copytree_def)
  next
    case (Dir ses)
    from wf_lookup[OF assms(2) Some] Dir have wfs: "wf_node (Dir ses)" by simp
    have "wf_node (snd (at_path True (copytree_leaf ses) p t))"
    proof (rule at_path_wf[OF assms(1)])
      fix cur assume "wf_opt cur"
      then show "wf_opt (snd (copytree_leaf ses cur))"
        using copytree_at_wf(1)[OF wfs, of cur]
        by (auto simp: copytree_leaf_def split: sum.splits prod.splits)
    qed
    with Some Dir show ?thesis by (simp add: copytree_def)
  qed
qed

lemma create_body_wf: "wf_node t \<Longrightarrow> wf_node (snd (create_body src p t))"
  by (simp add: create_body_def makedirs_wf copy2_wf)

lemma copy_body_wf: "wf_node t \<Longrightarrow> wf_node src \<Longrightarrow> wf_node (snd (copy_body src p t))"
  by (simp add: copy_body_def copytree_wf copy2_wf)

lemma remove_body_wf: "wf_node t \<Longrightarrow> wf_node (snd (remove_body p t))"
  by (simp add: remove_body_def remove_wf rmdir_wf)

lemma run_loop_wf:
  assumes "\<And>p t. wf_node t \<Longrightarrow> wf_node (snd (body p t))" and "wf_node t"
  shows "wf_node (snd (run_loop body ps t))"
  using assms(2)
proof (induction ps arbitrary: t)
  case Nil
  then show ?case by simp
next
  case (Cons p ps)
  obtain e t' where b: "body p t = (e, t')" by (cases "body p t")
  from assms(1)[OF Cons.prems, of p] b have wf: "wf_node t'" by simp
  show ?case
  proof (cases e)
    case None
    with b Cons.IH[OF wf] show ?thesis by simp
  next
    case (Some x)
    with b wf show ?thesis by simp
  qed
qed

section \<open>The three loops\<close>

lemma grows_refl: "grows t t"
  by (simp add: grows_def)

lemma grows_trans: "grows t s \<Longrightarrow> grows s u \<Longrightarrow> grows t u"
  by (simp add: grows_def)

lemma touches_only_refl: "touches_only src t t"
  by (simp add: touches_only_def)

lemma touches_only_trans: "touches_only src t s \<Longrightarrow> touches_only src s u \<Longrightarrow> touches_only src t u"
  by (simp add: touches_only_def)

lemma agrees_refl: "agrees src dst dst"
  by (simp add: agrees_def)

lemma in_rel_content:
  "wf_node t \<Longrightarrow> p \<in> set (rel_content t) \<longleftrightarrow> p \<noteq> [] \<and> visible p \<and> stat t p \<noteq> None"
  by (simp add: rel_content_eq rlistdir_iff stat_None_iff)

lemma rel_content_prefix:
  assumes "wf_node t" and "p \<in> set (rel_content t)" and "prefix q p" and "q \<noteq> []"
  shows "q \<in> set (rel_content t)"
proof -
  from assms(3) obtain r where r: "p = q @ r" by (auto simp: prefix_def)
  from assms(1,2) have p: "visible p" "stat t p \<noteq> None" by (simp_all add: in_rel_content)
  from p(1) r have "visible q" by simp
  moreover have "stat t q \<noteq> None"
  proof (cases r)
    case Nil
    with r p(2) show ?thesis by simp
  next
    case (Cons x r')
    with r p(2) stat_prefix_dir[of t q r] show ?thesis by simp
  qed
  ultimately show ?thesis using assms(1,4) by (simp add: in_rel_content)
qed

lemma butlast_prefix: "prefix (butlast q) q"
  by (metis append_butlast_last_id butlast.simps(1) prefixI prefix_order.order_refl)

lemma stat_butlast:
  assumes "stat t q \<noteq> None"
  shows "stat t (butlast q) \<noteq> None"
proof (cases "q = []")
  case True
  then show ?thesis by simp
next
  case False
  then have "q = butlast q @ [last q]" by simp
  with assms stat_prefix_dir[of t "butlast q" "[last q]"] show ?thesis by auto
qed

lemma stat_prefix_exists:
  assumes "prefix q p" and "stat t p \<noteq> None"
  shows "stat t q \<noteq> None"
proof -
  from assms(1) obtain r where r: "p = q @ r" by (auto simp: prefix_def)
  show ?thesis
  proof (cases r)
    case Nil
    with r assms(2) show ?thesis by simp
  next
    case (Cons x r')
    with r assms(2) stat_prefix_dir[of t q r] show ?thesis by simp
  qed
qed

lemma create_step:
  assumes wf: "wf_node src" "wf_node dst"
    and p: "p \<in> set (rel_content src)" "p \<notin> set (rel_content dst)"
    and a: "agrees src dst t"
    and ok: "create_body src p t = (None, t')"
  shows "agrees src dst t'" and "grows t t'" and "touches_only src t t'"
    and "stat t' p = stat src p"
proof -
  from wf(1) p(1) have pn: "p \<noteq> []" and pv: "visible p" and ps: "stat src p \<noteq> None"
    by (simp_all add: in_rel_content)
  from wf(2) p(2) pn pv have pd: "stat dst p = None" by (simp add: in_rel_content)
  have "agrees src dst t' \<and> grows t t' \<and> touches_only src t t' \<and> stat t' p = stat src p"
  proof (cases "isdir src p")
    case True
    with ok have m: "makedirs p t = (None, t')" by (simp add: create_body_def)
    note s = makedirs_success[OF m pn]
    from True have sp: "stat src p = Some KDir" by (simp add: isdir_iff)
    have src_pre: "stat src q = Some KDir" if "prefix q p" for q
    proof (cases "q = p")
      case True
      with sp show ?thesis by simp
    next
      case False
      with that have "strict_prefix q p" by (simp add: strict_prefix_def)
      then show ?thesis using ps by (rule stat_strict_prefix)
    qed
    have 1: "agrees src dst t'"
      unfolding agrees_def
    proof (intro allI impI)
      fix q assume "visible q"
      with a have "stat t q = stat dst q \<or> stat t q = stat src q" by (simp add: agrees_def)
      then show "stat t' q = stat dst q \<or> stat t' q = stat src q"
        using s(2)[of q] src_pre[of q] by (auto split: if_splits)
    qed
    have 2: "grows t t'" unfolding grows_def using s(2) by auto
    have 3: "touches_only src t t'"
      unfolding touches_only_def
    proof (intro allI impI)
      fix q assume q: "q \<noteq> []" "stat src (butlast q) = None"
      have "\<not> prefix q p"
      proof
        assume "prefix q p"
        with butlast_prefix[of q] have "prefix (butlast q) p" by (rule prefix_order.trans)
        then have "stat src (butlast q) \<noteq> None" using ps by (rule stat_prefix_exists)
        with q(2) show False by simp
      qed
      with s(2)[of q] show "stat t' q = stat t q" by simp
    qed
    have 4: "stat t' p = stat src p" using s(1) s(2)[of p] sp by simp
    from 1 2 3 4 show ?thesis by simp
  next
    case False
    with ok have c: "copy2 src p p t = (None, t')" by (simp add: create_body_def)
    from a pv have "stat t p = stat dst p \<or> stat t p = stat src p" by (simp add: agrees_def)
    with pd False have nd: "stat t p \<noteq> Some KDir" by (auto simp: isdir_iff)
    have s: "\<exists>c m. stat src p = Some (KFile c m) \<and> (\<forall>q. stat t' q = (if q = p then Some (KFile c m) else stat t q))"
    proof -
      have "\<exists>c m. stat src p = Some (KFile c m) \<and> stat t' q = (if q = p then Some (KFile c m) else stat t q)" for q
        by (rule copy2_success[OF c pn, of q]) (use nd in \<open>auto simp: stat_KFile_iff\<close>)
      then show ?thesis by (metis option.inject kind.inject(1))
    qed
    then obtain c m where sp: "stat src p = Some (KFile c m)"
      and st: "\<And>q. stat t' q = (if q = p then Some (KFile c m) else stat t q)" by blast
    have 1: "agrees src dst t'"
      unfolding agrees_def
    proof (intro allI impI)
      fix q assume "visible q"
      with a have "stat t q = stat dst q \<or> stat t q = stat src q" by (simp add: agrees_def)
      then show "stat t' q = stat dst q \<or> stat t' q = stat src q"
        using st[of q] sp by (auto split: if_splits)
    qed
    have 2: "grows t t'" unfolding grows_def using st by auto
    have 3: "touches_only src t t'"
      unfolding touches_only_def
    proof (intro allI impI)
      fix q assume q: "q \<noteq> []" "stat src (butlast q) = None"
      have "q \<noteq> p" using q(2) stat_butlast[OF ps] by auto
      with st[of q] show "stat t' q = stat t q" by simp
    qed
    have 4: "stat t' p = stat src p" using st[of p] sp by simp
    from 1 2 3 4 show ?thesis by simp
  qed
  then show "agrees src dst t'" "grows t t'" "touches_only src t t'" "stat t' p = stat src p"
    by simp_all
qed

lemma copytree_success:
  assumes "copytree src sp p t = (None, t')" and "p \<noteq> []" and "wf_node src"
  shows "\<exists>ses. lookup src sp = Some (Dir ses)
    \<and> (\<forall>q. \<not> prefix p q \<longrightarrow>
           stat t' q = (if strict_prefix q p \<and> stat t q = None then Some KDir else stat t q))
    \<and> (\<forall>r. r \<noteq> [] \<longrightarrow> stat (Dir ses) (butlast r) = None \<longrightarrow> stat t' (p @ r) = stat t (p @ r))
    \<and> (\<forall>ok r. (\<forall>r c m. list_all ok r \<longrightarrow> stat (Dir ses) r = Some (KFile c m)
                        \<longrightarrow> stat t (p @ r) \<noteq> Some KDir)
           \<longrightarrow> list_all ok r \<longrightarrow> stat t' (p @ r) = ((\<lambda>r. stat t (p @ r)) ++ stat (Dir ses)) r)"
proof -
  from assms(1) obtain ses where src: "lookup src sp = Some (Dir ses)"
    by (auto simp: copytree_def split: option.splits node.splits)
  from wf_lookup[OF assms(3) src] have wfs: "wf_node (Dir ses)" .
  from assms(1) src have f: "fst (at_path True (copytree_leaf ses) p t) = None"
    and t': "t' = snd (at_path True (copytree_leaf ses) p t)" by (simp_all add: copytree_def)
  from at_path_success[OF f assms(2)] obtain new where
    n: "copytree_leaf ses (lookup t p) = (None, new)" and r: "reaches True t p"
    and s: "\<And>q. stat t' q = replaced p new (stat t) q" unfolding t' by blast
  from n obtain d' where c: "copytree_at ses (lookup t p) = Inr ([], d')" and new: "new = Some d'"
    by (auto simp: copytree_leaf_def split: sum.splits prod.splits if_splits)
  have so: "statopt (lookup t p) r = stat t (p @ r)" for r
    by (simp add: statopt_def stat_append)
  have 1: "stat t' q = (if strict_prefix q p \<and> stat t q = None then Some KDir else stat t q)"
    if "\<not> prefix p q" for q
  proof (cases "strict_prefix q p")
    case True
    with r have "stat t q = Some KDir \<or> stat t q = None" by (auto simp: reaches_def)
    with True that s[of q] show ?thesis by (auto simp: replaced_simps)
  next
    case False
    with that s[of q] show ?thesis by (simp add: replaced_simps)
  qed
  have 2: "stat t' (p @ r) = stat t (p @ r)"
    if "r \<noteq> []" "stat (Dir ses) (butlast r) = None" for r
    using copytree_frame(1)[OF wfs c that] s[of "p @ r"] new so
    by (simp add: replaced_simps)
  have 3: "stat t' (p @ r) = ((\<lambda>r. stat t (p @ r)) ++ stat (Dir ses)) r"
    if compat: "\<And>r c m. list_all ok r \<Longrightarrow> stat (Dir ses) r = Some (KFile c m)
                        \<Longrightarrow> stat t (p @ r) \<noteq> Some KDir"
      and okr: "list_all ok r" for ok r
  proof -
    have "stat d' r = (statopt (lookup t p) ++ stat (Dir ses)) r"
    proof (rule copytree_overlay(1)[OF wfs c _ okr])
      fix r c m assume "list_all ok r" "stat (Dir ses) r = Some (KFile c m)"
      then show "statopt (lookup t p) r \<noteq> Some KDir" using compat so by simp
    qed
    then show ?thesis using s[of "p @ r"] new so
      by (simp add: replaced_simps map_add_def split: option.splits)
  qed
  from 1 have A: "\<forall>q. \<not> prefix p q \<longrightarrow>
           stat t' q = (if strict_prefix q p \<and> stat t q = None then Some KDir else stat t q)"
    by blast
  from 2 have B: "\<forall>r. r \<noteq> [] \<longrightarrow> stat (Dir ses) (butlast r) = None
      \<longrightarrow> stat t' (p @ r) = stat t (p @ r)" by blast
  have C: "\<forall>ok r. (\<forall>r c m. list_all ok r \<longrightarrow> stat (Dir ses) r = Some (KFile c m)
                        \<longrightarrow> stat t (p @ r) \<noteq> Some KDir)
           \<longrightarrow> list_all ok r \<longrightarrow> stat t' (p @ r) = ((\<lambda>r. stat t (p @ r)) ++ stat (Dir ses)) r"
  proof (intro allI impI)
    fix ok r
    assume h: "\<forall>r c m. list_all ok r \<longrightarrow> stat (Dir ses) r = Some (KFile c m)
                        \<longrightarrow> stat t (p @ r) \<noteq> Some KDir"
      and l: "list_all ok r"
    show "stat t' (p @ r) = ((\<lambda>r. stat t (p @ r)) ++ stat (Dir ses)) r"
    proof (rule 3[OF _ l])
      fix r c m assume "list_all ok r" "stat (Dir ses) r = Some (KFile c m)"
      with h show "stat t (p @ r) \<noteq> Some KDir" by blast
    qed
  qed
  from src A B C show ?thesis by blast
qed

lemma kinds_agreeD:
  assumes "kinds_agree src dst" and "wf_node src" and "q \<noteq> []" and "visible q"
    and "stat src q = Some (KFile c m)"
  shows "stat dst q \<noteq> Some KDir"
proof -
  from assms(2-5) have "q \<in> set (rel_content src)" by (simp add: in_rel_content)
  with assms(1) have "isdir dst q \<longrightarrow> isdir src q" by (simp add: kinds_agree_def list_all_iff)
  with assms(5) show ?thesis by (simp add: isdir_iff)
qed

lemma copy_step:
  assumes wf: "wf_node src" "wf_node dst"
    and p: "p \<in> set (rel_content src)"
    and k: "kinds_agree src dst"
    and a: "agrees src dst t"
    and ok: "copy_body src p t = (None, t')"
  shows "agrees src dst t'" and "grows t t'" and "touches_only src t t'"
proof -
  from wf(1) p have pn: "p \<noteq> []" and pv: "visible p" and ps: "stat src p \<noteq> None"
    by (simp_all add: in_rel_content)
  have "agrees src dst t' \<and> grows t t' \<and> touches_only src t t'"
  proof (cases "isdir src p")
    case False
    with ok have c: "copy2 src p p t = (None, t')" by (simp add: copy_body_def)
    obtain c0 m0 where sp0: "stat src p = Some (KFile c0 m0)"
    proof (cases "stat src p")
      case None
      with ps show ?thesis by simp
    next
      case (Some k)
      with False that show ?thesis by (cases k) (auto simp: isdir_iff)
    qed
    from a pv have "stat t p = stat dst p \<or> stat t p = stat src p" by (simp add: agrees_def)
    with kinds_agreeD[OF k wf(1) pn pv sp0] sp0 have nd: "stat t p \<noteq> Some KDir" by auto
    have "\<exists>c m. stat src p = Some (KFile c m) \<and> stat t' q = (if q = p then Some (KFile c m) else stat t q)" for q
      by (rule copy2_success[OF c pn, of q]) (use nd in \<open>auto simp: stat_KFile_iff\<close>)
    with sp0 have st: "\<And>q. stat t' q = (if q = p then Some (KFile c0 m0) else stat t q)" by auto
    have 1: "agrees src dst t'"
      unfolding agrees_def
    proof (intro allI impI)
      fix q assume "visible q"
      with a have "stat t q = stat dst q \<or> stat t q = stat src q" by (simp add: agrees_def)
      then show "stat t' q = stat dst q \<or> stat t' q = stat src q"
        using st[of q] sp0 by (auto split: if_splits)
    qed
    have 2: "grows t t'" unfolding grows_def using st by auto
    have 3: "touches_only src t t'"
      unfolding touches_only_def
    proof (intro allI impI)
      fix q assume q: "q \<noteq> []" "stat src (butlast q) = None"
      have "q \<noteq> p" using q(2) stat_butlast[OF ps] by auto
      with st[of q] show "stat t' q = stat t q" by simp
    qed
    from 1 2 3 show ?thesis by simp
  next
    case True
    with ok have c: "copytree src p p t = (None, t')" by (simp add: copy_body_def)
    from copytree_success[OF c pn wf(1)] obtain ses where
      src: "lookup src p = Some (Dir ses)"
      and out': "\<forall>q. \<not> prefix p q \<longrightarrow>
           stat t' q = (if strict_prefix q p \<and> stat t q = None then Some KDir else stat t q)"
      and frame': "\<forall>r. r \<noteq> [] \<longrightarrow> stat (Dir ses) (butlast r) = None
           \<longrightarrow> stat t' (p @ r) = stat t (p @ r)"
      and over': "\<forall>ok r. (\<forall>r c m. list_all ok r \<longrightarrow> stat (Dir ses) r = Some (KFile c m)
                        \<longrightarrow> stat t (p @ r) \<noteq> Some KDir)
           \<longrightarrow> list_all ok r \<longrightarrow> stat t' (p @ r) = ((\<lambda>r. stat t (p @ r)) ++ stat (Dir ses)) r"
      by blast
    note out = out'[rule_format] and frame = frame'[rule_format]
    have ss: "stat (Dir ses) r = stat src (p @ r)" for r
      using src by (simp add: stat_append)
    have compat: "stat t (p @ r) \<noteq> Some KDir"
      if "list_all (\<lambda>x. \<not> ishidden x) r" "stat (Dir ses) r = Some (KFile c m)" for r c m
    proof -
      from that(1) pv have v: "visible (p @ r)" by (simp add: visible_def)
      from that(2) have f: "stat src (p @ r) = Some (KFile c m)" by (simp add: ss)
      from pn have "p @ r \<noteq> []" by simp
      from kinds_agreeD[OF k wf(1) this v f] have "stat dst (p @ r) \<noteq> Some KDir" .
      moreover from a v have "stat t (p @ r) = stat dst (p @ r) \<or> stat t (p @ r) = stat src (p @ r)"
        by (simp add: agrees_def)
      ultimately show ?thesis using f by auto
    qed
    have below: "stat t' (p @ r) = (case stat src (p @ r) of None \<Rightarrow> stat t (p @ r) | Some k \<Rightarrow> Some k)"
      if "visible r" for r
    proof -
      from that have l: "list_all (\<lambda>x. \<not> ishidden x) r" by (simp add: visible_def)
      have "\<forall>r c m. list_all (\<lambda>x. \<not> ishidden x) r \<longrightarrow> stat (Dir ses) r = Some (KFile c m)
              \<longrightarrow> stat t (p @ r) \<noteq> Some KDir" using compat by blast
      with over' l have "stat t' (p @ r) = ((\<lambda>r. stat t (p @ r)) ++ stat (Dir ses)) r"
        by blast
      then show ?thesis by (simp add: map_add_def ss)
    qed
    have 1: "agrees src dst t'"
      unfolding agrees_def
    proof (intro allI impI)
      fix q assume vq: "visible q"
      with a have at: "stat t q = stat dst q \<or> stat t q = stat src q" by (simp add: agrees_def)
      show "stat t' q = stat dst q \<or> stat t' q = stat src q"
      proof (cases "prefix p q")
        case False
        show ?thesis
        proof (cases "strict_prefix q p")
          case True
          then have "stat src q = Some KDir" using ps by (rule stat_strict_prefix)
          with out[OF False] at show ?thesis by (auto split: if_splits)
        next
          case False
          with out[OF \<open>\<not> prefix p q\<close>] at show ?thesis by simp
        qed
      next
        case True
        then obtain r where r: "q = p @ r" by (auto simp: prefix_def)
        with vq have "visible r" by simp
        from below[OF this] at r show ?thesis by (auto split: option.splits)
      qed
    qed
    have 2: "grows t t'"
      unfolding grows_def
    proof (intro allI impI)
      fix q assume vq: "visible q" and e: "stat t q \<noteq> None"
      show "stat t' q \<noteq> None"
      proof (cases "prefix p q")
        case False
        from out[OF False] e show ?thesis by simp
      next
        case True
        then obtain r where r: "q = p @ r" by (auto simp: prefix_def)
        with vq have "visible r" by simp
        from below[OF this] e r show ?thesis by (auto split: option.splits)
      qed
    qed
    have 3: "touches_only src t t'"
      unfolding touches_only_def
    proof (intro allI impI)
      fix q assume q: "q \<noteq> []" "stat src (butlast q) = None"
      show "stat t' q = stat t q"
      proof (cases "prefix p q")
        case False
        have "\<not> strict_prefix q p"
        proof
          assume "strict_prefix q p"
          then have "prefix q p" by (simp add: strict_prefix_def)
          with butlast_prefix[of q] have "prefix (butlast q) p" by (rule prefix_order.trans)
          then have "stat src (butlast q) \<noteq> None" using ps by (rule stat_prefix_exists)
          with q(2) show False by simp
        qed
        with out[OF False] show ?thesis by simp
      next
        case True
        then obtain r where r: "q = p @ r" by (auto simp: prefix_def)
        have rn: "r \<noteq> []"
        proof
          assume "r = []"
          with r q(2) stat_butlast[OF ps] show False by simp
        qed
        with r have "butlast q = p @ butlast r" by (simp add: butlast_append)
        with q(2) have "stat (Dir ses) (butlast r) = None" by (simp add: ss)
        from frame[OF rn this] r show ?thesis by simp
      qed
    qed
    from 1 2 3 show ?thesis by simp
  qed
  then show "agrees src dst t'" "grows t t'" "touches_only src t t'" by simp_all
qed

lemma run_loop_Cons_success:
  assumes "run_loop body (p # ps) t = (None, t')"
  obtains s where "body p t = (None, s)" and "run_loop body ps s = (None, t')"
proof -
  obtain e s where b: "body p t = (e, s)" by (cases "body p t")
  with assms have "e = None" by (cases e) auto
  with b assms that show thesis by simp
qed

lemma create_phase:
  assumes wf: "wf_node src" "wf_node dst"
    and ps: "set ps \<subseteq> set (rel_content src) - set (rel_content dst)"
    and a: "agrees src dst t"
    and run: "run_loop (create_body src) ps t = (None, t')"
  shows "agrees src dst t' \<and> grows t t' \<and> touches_only src t t'
         \<and> (\<forall>p\<in>set ps. stat t' p = stat src p)"
  using ps a run
proof (induction ps arbitrary: t)
  case Nil
  then show ?case by (simp add: grows_refl touches_only_refl)
next
  case (Cons p ps)
  from Cons.prems(3) obtain s where b: "create_body src p t = (None, s)"
    and r: "run_loop (create_body src) ps s = (None, t')"
    by (rule run_loop_Cons_success)
  from Cons.prems(1) have p: "p \<in> set (rel_content src)" "p \<notin> set (rel_content dst)"
    and ps': "set ps \<subseteq> set (rel_content src) - set (rel_content dst)" by auto
  note st = create_step[OF wf p Cons.prems(2) b]
  from Cons.IH[OF ps' st(1) r] have ih: "agrees src dst t'" "grows s t'" "touches_only src s t'"
    "\<forall>p\<in>set ps. stat t' p = stat src p" by simp_all
  from wf(1) p(1) have pv: "visible p" and pe: "stat src p \<noteq> None" by (simp_all add: in_rel_content)
  have "stat t' p = stat src p"
  proof -
    from pe st(4) have "stat s p \<noteq> None" by simp
    with ih(2) pv have ne: "stat t' p \<noteq> None" by (simp add: grows_def)
    from ih(1) pv have "stat t' p = stat dst p \<or> stat t' p = stat src p" by (simp add: agrees_def)
    moreover from wf(2) p(2) pv wf(1) p(1) have "stat dst p = None" by (simp add: in_rel_content)
    ultimately show ?thesis using ne by auto
  qed
  with ih st show ?case
    by (auto intro: grows_trans touches_only_trans)
qed

lemma copy_phase:
  assumes wf: "wf_node src" "wf_node dst"
    and ps: "set ps \<subseteq> set (rel_content src)"
    and k: "kinds_agree src dst"
    and a: "agrees src dst t"
    and run: "run_loop (copy_body src) ps t = (None, t')"
  shows "agrees src dst t' \<and> grows t t' \<and> touches_only src t t'"
  using ps a run
proof (induction ps arbitrary: t)
  case Nil
  then show ?case by (simp add: grows_refl touches_only_refl)
next
  case (Cons p ps)
  from Cons.prems(3) obtain s where b: "copy_body src p t = (None, s)"
    and r: "run_loop (copy_body src) ps s = (None, t')"
    by (rule run_loop_Cons_success)
  from Cons.prems(1) have p: "p \<in> set (rel_content src)"
    and ps': "set ps \<subseteq> set (rel_content src)" by auto
  note st = copy_step[OF wf p k Cons.prems(2) b]
  from Cons.IH[OF ps' st(1) r] st show ?case
    by (auto intro: grows_trans touches_only_trans)
qed

lemma remove_body_success:
  assumes "remove_body p t = (None, t')" and "p \<noteq> []"
  shows "stat t' q = (if q = p then None else stat t q)"
  using assms remove_success(2)[of p t t' q] rmdir_success(2)[of p t t' q]
  by (auto simp: remove_body_def split: if_splits)

lemma remove_phase:
  assumes "run_loop remove_body ps t = (None, t')" and "[] \<notin> set ps"
  shows "stat t' q = (if q \<in> set ps then None else stat t q)"
  using assms
proof (induction ps arbitrary: t)
  case Nil
  then show ?case by simp
next
  case (Cons p ps)
  from Cons.prems(1) obtain s where b: "remove_body p t = (None, s)"
    and r: "run_loop remove_body ps s = (None, t')"
    by (rule run_loop_Cons_success)
  from Cons.prems(2) have pn: "p \<noteq> []" and ps': "[] \<notin> set ps" by auto
  from Cons.IH[OF r ps'] remove_body_success[OF b pn, of q] show ?case by auto
qed

lemma run_loop_success_wf:
  assumes "run_loop body ps t = (None, t')" and "wf_node t"
    and "\<And>p t. wf_node t \<Longrightarrow> wf_node (snd (body p t))"
  shows "wf_node t'"
  using run_loop_wf[of body t ps, OF assms(3,2)] assms(1) by simp

lemma pass_result:
  assumes sh: "is_shuffle \<pi>" and wf: "wf_node src" "wf_node dst"
    and k: "kinds_agree src dst"
    and ok: "synchronize_folders \<pi> src dst = (Inr a, t)"
  shows "wf_node t" and "set (rel_content t) = set (rel_content src)"
proof -
  let ?a = "classify \<pi> (rel_content src) (rel_content dst)"
  let ?S = "set (rel_content src)" and ?D = "set (rel_content dst)"
  from ok obtain t1 t2 where
    r1: "run_loop (create_body src) (create_order ?a) dst = (None, t1)"
    and r2: "run_loop (copy_body src) (copy_order ?a) t1 = (None, t2)"
    and r3: "run_loop remove_body (remove_order ?a) t2 = (None, t)"
    by (cases \<pi> src dst rule: synchronize_folders_cases) auto
  have c: "set (create_order ?a) = ?S - ?D"
    and r: "set (remove_order ?a) = ?D - ?S"
    and cp: "set (copy_order ?a) \<subseteq> ?S"
    using sh by (auto simp: set_create_order set_remove_order set_copy_order set_action_classify)
  from create_phase[OF wf _ agrees_refl r1] c
  have a1: "agrees src dst t1" and e1: "\<forall>p\<in>?S - ?D. stat t1 p = stat src p" by auto
  from copy_phase[OF wf cp k a1 r2]
  have a2: "agrees src dst t2" and g2: "grows t1 t2" by simp_all
  have "[] \<notin> set (remove_order ?a)" using r by (simp add: rel_content_eq Nil_notin_rlistdir)
  note st = remove_phase[OF r3 this]
  have w1: "wf_node t1" using r1 wf(2) by (rule run_loop_success_wf) (rule create_body_wf)
  have w2: "wf_node t2" using r2 w1 by (rule run_loop_success_wf) (rule copy_body_wf[OF _ wf(1)])
  show w3: "wf_node t" using r3 w2 by (rule run_loop_success_wf) (rule remove_body_wf)
  have "q \<in> set (rel_content t) \<longleftrightarrow> q \<in> ?S" for q
  proof (cases "q \<noteq> [] \<and> visible q")
    case False
    with w3 wf(1) show ?thesis by (auto simp: in_rel_content)
  next
    case True
    then have qn: "q \<noteq> []" and qv: "visible q" by simp_all
    from a2 qv have ag: "stat t2 q = stat dst q \<or> stat t2 q = stat src q" by (simp add: agrees_def)
    have inS: "q \<in> ?S \<longleftrightarrow> stat src q \<noteq> None" using wf(1) qn qv by (simp add: in_rel_content)
    have inD: "q \<in> ?D \<longleftrightarrow> stat dst q \<noteq> None" using wf(2) qn qv by (simp add: in_rel_content)
    have "stat t q \<noteq> None \<longleftrightarrow> q \<in> ?S"
    proof (cases "q \<in> ?S")
      case True
      with st[of q] r have "stat t q = stat t2 q" by simp
      moreover have "stat t2 q \<noteq> None"
      proof (cases "q \<in> ?D")
        case True
        with ag inD inS \<open>q \<in> ?S\<close> show ?thesis by auto
      next
        case False
        with True e1 inS have "stat t1 q \<noteq> None" by auto
        with g2 qv show ?thesis by (simp add: grows_def)
      qed
      ultimately show ?thesis using True by simp
    next
      case False
      show ?thesis
      proof (cases "q \<in> ?D")
        case True
        with False st[of q] r show ?thesis by simp
      next
        case nD: False
        with False ag inS inD have "stat t2 q = None" by auto
        with st[of q] False show ?thesis by simp
      qed
    qed
    with w3 qn qv show ?thesis by (simp add: in_rel_content)
  qed
  then show "set (rel_content t) = set (rel_content src)" by blast
qed

section \<open>The second pass\<close>

lemma action_empty_iff: "action a k = [] \<longleftrightarrow> set (action a k) = {}"
  by simp


lemma ex1_first: "synchronize_folders (\<lambda>xs. xs) src1 dst1 =
    (Inr [(''created'', [[''a.txt''], [''b'', ''c.txt'']]), (''removed'', [[''old.txt'']]),
          (''copied'', [[''b'']])], after1)"
  by code_simp

lemma ex1_second: "synchronize_folders (\<lambda>xs. xs) src1 after1 =
    (Inr [(''created'', []), (''removed'', []),
          (''copied'', [[''a.txt''], [''b''], [''b'', ''c.txt'']])], after1)"
  by code_simp

lemma ex1_hyps: "wf_node src1" "wf_node dst1" "kinds_agree src1 dst1"
  by code_simp+


lemma ex5_first: "synchronize_folders (\<lambda>xs. xs) src5 dst5 =
    (Inr [(''created'', []), (''removed'', []), (''copied'', [[''a'']])], after5)"
  by code_simp

lemma ex5_second: "synchronize_folders (\<lambda>xs. xs) src5 after5 =
    (Inr [(''created'', []), (''removed'', [[''a'', ''a'']]), (''copied'', [[''a'']])], dst5)"
  by code_simp

lemma ex6_first: "synchronize_folders (\<lambda>xs. xs) src6 dst6 = (Inl (OSError DirectoryNotEmpty), dst6)"
  by code_simp

lemma ex6_second: "action (classify (\<lambda>xs. xs) (rel_content src6) (rel_content dst6)) ''removed'' = [[''old'']]"
  by code_simp


section \<open>When an operation returns\<close>

text \<open>
  The converse of the lemmas on successful operations: a walk whose parents are all
  directories (or may be created) returns whenever the operation at its end does.
\<close>

lemma reachesD:
  "reaches mk t p \<Longrightarrow> strict_prefix q p \<Longrightarrow> stat t q = Some KDir \<or> mk \<and> stat t q = None"
  by (simp add: reaches_def)

lemma reaches_Cons:
  assumes "reaches mk (Dir es) (x # y # p)" and "map_of es x = Some d"
  shows "reaches mk d (y # p)"
  unfolding reaches_def
proof (intro allI impI)
  fix q assume "strict_prefix q (y # p)"
  then have "strict_prefix (x # q) (x # y # p)" by (simp add: strict_prefix_def)
  from reachesD[OF assms(1) this]
  have "stat (Dir es) (x # q) = Some KDir \<or> mk \<and> stat (Dir es) (x # q) = None" .
  with assms(2) show "stat d q = Some KDir \<or> mk \<and> stat d q = None" by simp
qed

lemma reaches_missing:
  assumes "reaches mk (Dir es) (x # y # p)" and "map_of es x = None"
  shows "mk"
proof -
  have "strict_prefix [x] (x # y # p)" by (simp add: strict_prefix_def)
  from reachesD[OF assms(1) this]
  have "stat (Dir es) [x] = Some KDir \<or> mk \<and> stat (Dir es) [x] = None" .
  with assms(2) show ?thesis by simp
qed

lemma reaches_empty: "reaches True (Dir []) p"
proof -
  have "stat (Dir []) q = Some KDir \<or> stat (Dir []) q = None" for q
    by (cases q) simp_all
  then show ?thesis by (simp add: reaches_def)
qed

lemma at_path_returns:
  assumes "reaches mk t p" and "p \<noteq> []" and "fst (f (lookup t p)) = None"
  shows "fst (at_path mk f p t) = None"
  using assms
proof (induction mk f p t rule: at_path.induct)
  case (1 mk f t)
  then show ?case by simp
next
  case (2 mk f x p c m)
  have "strict_prefix [] (x # p)" by (simp add: strict_prefix_def)
  from reachesD[OF 2(1) this] show ?case by simp
next
  case (3 mk f x es)
  have "lookup (Dir es) [x] = map_of es x" by (simp split: option.splits)
  with 3(3) have "fst (f (map_of es x)) = None" by simp
  then show ?case
    by (cases "f (map_of es x)") (auto split: option.splits)
next
  case (4 mk f x y p es)
  show ?case
  proof (cases "map_of es x")
    case None
    from reaches_missing[OF 4(3) None] have mk: mk .
    from None 4(5) have "fst (f (lookup (Dir []) (y # p))) = None" by simp
    with 4(1)[OF None mk] mk reaches_empty have "fst (at_path mk f (y # p) (Dir [])) = None"
      by simp
    with None mk show ?thesis
      by (cases "at_path mk f (y # p) (Dir [])") simp
  next
    case (Some d)
    from Some 4(5) have "fst (f (lookup d (y # p))) = None" by simp
    with 4(2)[OF Some reaches_Cons[OF 4(3) Some]] have "fst (at_path mk f (y # p) d) = None"
      by simp
    with Some show ?thesis
      by (cases "at_path mk f (y # p) d") simp
  qed
qed

lemma makedirs_returns:
  assumes "reaches True t p" and "p \<noteq> []" and "stat t p = None"
  shows "\<exists>t'. makedirs p t = (None, t')"
proof -
  from assms(3) have "lookup t p = None" by (simp add: stat_None_iff)
  then have "fst (makedirs_leaf (lookup t p)) = None" by simp
  from at_path_returns[where f = makedirs_leaf, OF assms(1,2) this] show ?thesis
    by (cases "makedirs p t") (simp add: makedirs_def)
qed

lemma copy2_returns:
  assumes "lookup src sp = Some (File c m)" and "reaches False t p" and "p \<noteq> []"
    and "stat t p \<noteq> Some KDir"
  shows "\<exists>t'. copy2 src sp p t = (None, t')"
proof -
  have "fst (copy2_at (last sp) (File c m) (lookup t p)) = None"
  proof (cases "lookup t p")
    case None
    then show ?thesis by (simp add: copy2_at_def)
  next
    case (Some d)
    with assms(4) obtain c' m' where "d = File c' m'"
      by (cases d) (auto simp: stat_def)
    with Some show ?thesis by (simp add: copy2_at_def)
  qed
  from at_path_returns[where f = "copy2_at (last sp) (File c m)", OF assms(2,3) this] assms(1) show ?thesis
    by (cases "copy2 src sp p t") (simp add: copy2_def)
qed

lemma rmdir_returns:
  assumes "lookup t p = Some (Dir [])" and "p \<noteq> []"
  shows "\<exists>t'. rmdir p t = (None, t')"
proof -
  from assms(1) have "stat t p \<noteq> None" by (simp add: stat_def)
  then have "reaches False t p" by (simp add: reaches_def stat_strict_prefix)
  moreover from assms(1) have "fst (rmdir_leaf (lookup t p)) = None" by simp
  ultimately have "fst (at_path False rmdir_leaf p t) = None" using assms(2)
    by (simp add: at_path_returns)
  then show ?thesis by (cases "rmdir p t") (simp add: rmdir_def)
qed

lemma stat_file:
  assumes "stat t p \<noteq> None" and "\<not> isdir t p"
  obtains c m where "stat t p = Some (KFile c m)"
proof -
  from assms(1) obtain k where k: "stat t p = Some k" by auto
  with assms(2) have "k \<noteq> KDir" by (auto simp: isdir_iff)
  then obtain c m where "k = KFile c m" by (cases k) auto
  with k that show thesis by simp
qed

section \<open>The create loop\<close>

lemma strict_prefix_depth: "strict_prefix p q \<Longrightarrow> depth p < depth q"
  by (auto simp: depth_def strict_prefix_def prefix_def)

lemma create_order_sorted:
  assumes "create_order a = pre @ p # post"
  shows "\<forall>q\<in>set pre. depth q \<le> depth p" and "\<forall>q\<in>set post. depth p \<le> depth q"
proof -
  have "sorted (map depth (create_order a))" by (simp add: create_order_def)
  with assms have "sorted (map depth pre @ depth p # map depth post)" by simp
  then show "\<forall>q\<in>set pre. depth q \<le> depth p" "\<forall>q\<in>set post. depth p \<le> depth q"
    by (auto simp: sorted_append)
qed

lemma parents_agreeD:
  assumes "parents_agree src dst" and "q \<in> set (rel_content src)"
    and "stat src q = Some KDir" and "stat dst q \<noteq> None"
  shows "stat dst q = Some KDir"
proof -
  from assms(1,2) have "isdir src q \<longrightarrow> stat dst q = None \<or> isdir dst q"
    unfolding parents_agree_def list_all_iff by (rule bspec)
  with assms(3,4) show ?thesis by (auto simp: isdir_iff)
qed

lemma create_step_frame:
  assumes wf: "wf_node src" "wf_node dst"
    and p: "p \<in> set (rel_content src)" "p \<notin> set (rel_content dst)"
    and a: "agrees src dst t"
    and ok: "create_body src p t = (None, t')"
    and q: "\<not> prefix q p"
  shows "stat t' q = stat t q"
proof -
  from wf(1) p(1) have pn: "p \<noteq> []" and pv: "visible p" and ps: "stat src p \<noteq> None"
    by (simp_all add: in_rel_content)
  from wf(2) p(2) pn pv have pd: "stat dst p = None" by (simp add: in_rel_content)
  show ?thesis
  proof (cases "isdir src p")
    case True
    with ok have "makedirs p t = (None, t')" by (simp add: create_body_def)
    from makedirs_success(2)[OF this pn, of q] q show ?thesis by simp
  next
    case False
    with ok have c: "copy2 src p p t = (None, t')" by (simp add: create_body_def)
    from a pv have "stat t p = stat dst p \<or> stat t p = stat src p" by (simp add: agrees_def)
    with pd False have nd: "stat t p \<noteq> Some KDir" by (auto simp: isdir_iff)
    from q have "q \<noteq> p" by auto
    with nd show ?thesis by (auto intro: copy2_success[OF c pn, of q])
  qed
qed

lemma create_phase_frame:
  assumes wf: "wf_node src" "wf_node dst"
    and ps: "set ps \<subseteq> set (rel_content src) - set (rel_content dst)"
    and a: "agrees src dst t"
    and run: "run_loop (create_body src) ps t = (None, t')"
    and q: "\<forall>p\<in>set ps. \<not> prefix q p"
  shows "stat t' q = stat t q"
  using ps a run q
proof (induction ps arbitrary: t)
  case Nil
  then show ?case by simp
next
  case (Cons p ps)
  from Cons.prems(3) obtain s where b: "create_body src p t = (None, s)"
    and r: "run_loop (create_body src) ps s = (None, t')"
    by (rule run_loop_Cons_success)
  from Cons.prems(1) have p: "p \<in> set (rel_content src)" "p \<notin> set (rel_content dst)"
    and ps': "set ps \<subseteq> set (rel_content src) - set (rel_content dst)" by auto
  from Cons.prems(4) have qp: "\<not> prefix q p" and qs: "\<forall>p\<in>set ps. \<not> prefix q p" by auto
  from create_step(1)[OF wf p Cons.prems(2) b] have a': "agrees src dst s" .
  from create_step_frame[OF wf p Cons.prems(2) b qp] have "stat s q = stat t q" .
  with Cons.IH[OF ps' a' r qs] show ?case by simp
qed


lemma ex0_wf: "wf_node src1" "wf_node (Dir [])"
  by code_simp+

lemma ex0_order:
  "create_order (classify (\<lambda>xs. xs) (rel_content src1) (rel_content (Dir [])))
     = [[''a.txt'']] @ [''b''] # [[''b'', ''c.txt'']]"
  "create_order (classify (\<lambda>xs. xs) (rel_content src1) (rel_content (Dir [])))
     = [[''a.txt''], [''b'']] @ [''b'', ''c.txt''] # []"
  by code_simp+

lemma ex0_runs:
  "run_loop (create_body src1) [[''a.txt'']] (Dir []) = (None, mid1)"
  "run_loop (create_body src1) [[''a.txt''], [''b'']] (Dir []) = (None, mid1b)"
  by code_simp+

lemma ex0_steps:
  "create_body src1 [''b''] mid1 = (None, mid1b)"
  "create_body src1 [''b'', ''c.txt''] mid1b = (None, end1)"
  by code_simp+

lemma ex0_kinds: "isdir src1 [''b'']" "\<not> isdir src1 [''b'', ''c.txt'']"
  "isdir src1 [] \<and> isdir (Dir []) [] \<and> parents_agree src1 (Dir [])"
  by code_simp+


section \<open>The remove loop\<close>

lemma no_hidden_entriesD:
  assumes "no_hidden_entries dst ps" and "p \<in> set ps"
    and "lookup dst p = Some (Dir es)" and "(x, c) \<in> set es"
  shows "\<not> ishidden x"
proof -
  from assms(1,2) have "case lookup dst p of
      Some (Dir es) \<Rightarrow> list_all (\<lambda>(x, c). \<not> ishidden x) es | _ \<Rightarrow> True"
    unfolding no_hidden_entries_def list_all_iff by (rule bspec)
  with assms(3) have "list_all (\<lambda>(x, c). \<not> ishidden x) es" by simp
  with assms(4) show ?thesis by (auto simp: list_all_iff)
qed

lemma copy_step_touches:
  assumes wf: "wf_node src"
    and p: "p \<in> set (rel_content src)"
    and ok: "copy_body src p t = (None, t')"
  shows "touches_only src t t'"
proof -
  from wf p have pn: "p \<noteq> []" and pv: "visible p" and ps: "stat src p \<noteq> None"
    by (simp_all add: in_rel_content)
  show ?thesis
  proof (cases "isdir src p")
    case False
    with ok have c: "copy2 src p p t = (None, t')" by (simp add: copy_body_def)
    show ?thesis
      unfolding touches_only_def
    proof (intro allI impI)
      fix q assume q: "q \<noteq> []" "stat src (butlast q) = None"
      have 1: "q \<noteq> p" using q(2) stat_butlast[OF ps] by auto
      have 2: "q \<noteq> p @ [last p]" using q(2) ps by auto
      show "stat t' q = stat t q"
        by (rule copy2_success[OF c pn, of q]) (use 1 2 in \<open>cases "stat t p = Some KDir"; simp\<close>)
    qed
  next
    case True
    with ok have c: "copytree src p p t = (None, t')" by (simp add: copy_body_def)
    from copytree_success[OF c pn wf] obtain ses where
      src: "lookup src p = Some (Dir ses)"
      and out': "\<forall>q. \<not> prefix p q \<longrightarrow>
           stat t' q = (if strict_prefix q p \<and> stat t q = None then Some KDir else stat t q)"
      and frame': "\<forall>r. r \<noteq> [] \<longrightarrow> stat (Dir ses) (butlast r) = None
           \<longrightarrow> stat t' (p @ r) = stat t (p @ r)"
      by blast
    note out = out'[rule_format] and frame = frame'[rule_format]
    have ss: "stat (Dir ses) r = stat src (p @ r)" for r
      using src by (simp add: stat_append)
    show ?thesis
      unfolding touches_only_def
    proof (intro allI impI)
      fix q assume q: "q \<noteq> []" "stat src (butlast q) = None"
      show "stat t' q = stat t q"
      proof (cases "prefix p q")
        case False
        have "\<not> strict_prefix q p"
        proof
          assume "strict_prefix q p"
          then have "prefix q p" by (simp add: strict_prefix_def)
          with butlast_prefix[of q] have "prefix (butlast q) p" by (rule prefix_order.trans)
          then have "stat src (butlast q) \<noteq> None" using ps by (rule stat_prefix_exists)
          with q(2) show False by simp
        qed
        with out[OF False] show ?thesis by simp
      next
        case True
        then obtain r where r: "q = p @ r" by (auto simp: prefix_def)
        have rn: "r \<noteq> []"
        proof
          assume "r = []"
          with r q(2) stat_butlast[OF ps] show False by simp
        qed
        with r have "butlast q = p @ butlast r" by (simp add: butlast_append)
        with q(2) have "stat (Dir ses) (butlast r) = None" by (simp add: ss)
        from frame[OF rn this] r show ?thesis by simp
      qed
    qed
  qed
qed

lemma copy_phase_touches:
  assumes wf: "wf_node src"
    and ps: "set ps \<subseteq> set (rel_content src)"
    and run: "run_loop (copy_body src) ps t = (None, t')"
  shows "touches_only src t t'"
  using ps run
proof (induction ps arbitrary: t)
  case Nil
  then show ?case by (simp add: touches_only_refl)
next
  case (Cons p ps)
  from Cons.prems(2) obtain s where b: "copy_body src p t = (None, s)"
    and r: "run_loop (copy_body src) ps s = (None, t')"
    by (rule run_loop_Cons_success)
  from Cons.prems(1) have p: "p \<in> set (rel_content src)"
    and ps': "set ps \<subseteq> set (rel_content src)" by auto
  from copy_step_touches[OF wf p b] Cons.IH[OF ps' r] show ?case
    by (rule touches_only_trans)
qed

lemma remove_order_sorted:
  assumes "remove_order a = pre @ p # post"
  shows "\<forall>q\<in>set pre. depth p \<le> depth q" and "\<forall>q\<in>set post. depth q \<le> depth p"
proof -
  have "sorted (map depth (sort_key depth (rev (action a ''removed''))))" by simp
  then have "sorted (rev (map depth (remove_order a)))"
    by (simp add: remove_order_def rev_map)
  with assms have "sorted (rev (map depth post) @ depth p # rev (map depth pre))" by simp
  then show "\<forall>q\<in>set pre. depth p \<le> depth q" "\<forall>q\<in>set post. depth q \<le> depth p"
    by (auto simp: sorted_append)
qed

text \<open>
  Claim C5, amended. The removed paths are visited by descending depth, so every
  enumerated path below a removed directory \<open>p\<close> is visited before \<open>p\<close>. When the loop
  reaches \<open>p\<close>, the entries still in \<open>p\<close> are hidden ones, which the enumeration does
  not list; where the destination directory held no hidden entry, \<open>p\<close> is empty at
  that moment and \<open>rmdir\<close> returns.
\<close>

theorem removal_deepest_first:
  assumes sh: "is_shuffle \<pi>" and wf: "wf_node src" "wf_node dst"
    and a: "a = classify \<pi> (rel_content src) (rel_content dst)"
    and r1: "run_loop (create_body src) (create_order a) dst = (None, t1)"
    and r2: "run_loop (copy_body src) (copy_order a) t1 = (None, t2)"
    and split: "remove_order a = pre @ p # post"
    and r3: "run_loop remove_body pre t2 = (None, t)"
  shows "(\<forall>q\<in>set pre. depth p \<le> depth q) \<and> (\<forall>q\<in>set post. depth q \<le> depth p)
       \<and> (\<forall>q\<in>set (remove_order a). strict_prefix p q \<longrightarrow> q \<in> set pre)
       \<and> remove_body p t = (if \<not> isdir t p then remove p t else rmdir p t)
       \<and> (\<forall>x. stat t (p @ [x]) \<noteq> None \<longrightarrow> ishidden x)
       \<and> (isdir t p \<and> no_hidden_entries dst [p]
            \<longrightarrow> lookup t p = Some (Dir []) \<and> (\<exists>t'. remove_body p t = (None, t')))"
proof -
  let ?S = "set (rel_content src)" and ?D = "set (rel_content dst)"
  note so = remove_order_sorted[OF split]
  have below: "\<forall>q\<in>set (remove_order a). strict_prefix p q \<longrightarrow> q \<in> set pre"
  proof (intro ballI impI)
    fix q assume q: "q \<in> set (remove_order a)" "strict_prefix p q"
    from q(2) have d: "depth p < depth q" by (rule strict_prefix_depth)
    with so(2) have "q \<notin> set post" by auto
    moreover from d have "q \<noteq> p" by auto
    ultimately show "q \<in> set pre" using q(1) split by auto
  qed
  have c: "set (create_order a) = ?S - ?D" and r: "set (remove_order a) = ?D - ?S"
    and cp: "set (copy_order a) \<subseteq> ?S"
    using sh a by (auto simp: set_create_order set_remove_order set_copy_order set_action_classify)
  from split r have p: "p \<in> ?D" "p \<notin> ?S" by auto
  from wf(2) p(1) have pn: "p \<noteq> []" and pv: "visible p" and pd: "stat dst p \<noteq> None"
    by (simp_all add: in_rel_content)
  from wf(1) p(2) pn pv have psrc: "stat src p = None" by (simp add: in_rel_content)
  from create_phase[OF wf _ agrees_refl r1] c have "touches_only src dst t1" by auto
  moreover from copy_phase_touches[OF wf(1) cp r2] have "touches_only src t1 t2" .
  ultimately have to: "touches_only src dst t2" by (rule touches_only_trans)
  have np: "[] \<notin> set pre"
  proof
    assume "[] \<in> set pre"
    with split have "[] \<in> set (remove_order a)" by simp
    with r show False by (simp add: rel_content_eq Nil_notin_rlistdir)
  qed
  note st = remove_phase[OF r3 np]
  have child: "stat t (p @ [x]) = (if p @ [x] \<in> set pre then None else stat dst (p @ [x]))" for x
  proof -
    from to psrc have "stat t2 (p @ [x]) = stat dst (p @ [x])" by (simp add: touches_only_def)
    with st[of "p @ [x]"] show ?thesis by simp
  qed
  have body: "remove_body p t = (if \<not> isdir t p then remove p t else rmdir p t)"
    by (simp add: remove_body_def)
  have hid: "\<forall>x. stat t (p @ [x]) \<noteq> None \<longrightarrow> ishidden x"
  proof (intro allI impI, rule ccontr)
    fix x assume x: "stat t (p @ [x]) \<noteq> None" and nh: "\<not> ishidden x"
    from x child[of x] have out: "p @ [x] \<notin> set pre" and d: "stat dst (p @ [x]) \<noteq> None"
      by (auto split: if_splits)
    from nh pv have "visible (p @ [x])" by simp
    with wf(2) d have inD: "p @ [x] \<in> ?D" by (simp add: in_rel_content)
    have "stat src (p @ [x]) = None"
      using psrc by (simp add: stat_append stat_None_iff)
    with wf(1) have "p @ [x] \<notin> ?S" by (simp add: in_rel_content)
    with inD r have "p @ [x] \<in> set (remove_order a)" by simp
    moreover have "strict_prefix p (p @ [x])" by (simp add: strict_prefix_def)
    ultimately have "p @ [x] \<in> set pre" using below by simp
    with out show False by simp
  qed
  have empty: "isdir t p \<and> no_hidden_entries dst [p]
      \<longrightarrow> lookup t p = Some (Dir []) \<and> (\<exists>t'. remove_body p t = (None, t'))"
  proof
    assume h: "isdir t p \<and> no_hidden_entries dst [p]"
    then have k: "stat t p = Some KDir" and nh: "no_hidden_entries dst [p]"
      by (simp_all add: isdir_iff)
    have "stat t (p @ [x]) = None" for x
    proof (rule ccontr)
      assume x: "stat t (p @ [x]) \<noteq> None"
      with hid have hx: "ishidden x" by simp
      from x child[of x] have "stat dst (p @ [x]) \<noteq> None" by (auto split: if_splits)
      then obtain d where d: "lookup dst p = Some d" and dx: "stat d [x] \<noteq> None"
        by (auto simp: stat_append split: option.splits)
      from dx obtain es where des: "d = Dir es" by (cases d) simp_all
      with dx obtain n where n: "map_of es x = Some n" by (auto split: option.splits)
      from d des have es: "lookup dst p = Some (Dir es)" by simp
      have "p \<in> set [p]" by simp
      from nh this es map_of_SomeD[OF n] have "\<not> ishidden x" by (rule no_hidden_entriesD)
      with hx show False by simp
    qed
    with k have e: "lookup t p = Some (Dir [])" by (simp add: lookup_empty_dir)
    from rmdir_returns[OF e pn] h have "\<exists>t'. remove_body p t = (None, t')"
      by (simp add: remove_body_def)
    with e show "lookup t p = Some (Dir []) \<and> (\<exists>t'. remove_body p t = (None, t'))" by simp
  qed
  from so below body hid empty show ?thesis by blast
qed

lemma ex7_wf: "wf_node src4" "wf_node dst7"
  by code_simp+

lemma ex7_create: "run_loop (create_body src4)
    (create_order (classify (\<lambda>xs. xs) (rel_content src4) (rel_content dst7))) dst7 = (None, dst7)"
  by code_simp

lemma ex7_copy: "run_loop (copy_body src4)
    (copy_order (classify (\<lambda>xs. xs) (rel_content src4) (rel_content dst7))) dst7 = (None, dst7)"
  by code_simp

lemma ex7_order: "remove_order (classify (\<lambda>xs. xs) (rel_content src4) (rel_content dst7))
    = [[''oldDir'', ''f.txt'']] @ [''oldDir''] # []"
  by code_simp

lemma ex7_pre: "run_loop remove_body [[''oldDir'', ''f.txt'']] dst7 = (None, mid7)"
  by code_simp

lemma ex7_hyps: "isdir mid7 [''oldDir''] \<and> no_hidden_entries dst7 [[''oldDir'']]"
  by code_simp

lemma ex7_step: "remove_body [''oldDir''] mid7 = (None, src4)"
  by code_simp

theorem removal_deepest_first_witness:
  "is_shuffle (\<lambda>xs. xs) \<and> wf_node src4 \<and> wf_node dst7
   \<and> run_loop (create_body src4)
        (create_order (classify (\<lambda>xs. xs) (rel_content src4) (rel_content dst7))) dst7 = (None, dst7)
   \<and> run_loop (copy_body src4)
        (copy_order (classify (\<lambda>xs. xs) (rel_content src4) (rel_content dst7))) dst7 = (None, dst7)
   \<and> remove_order (classify (\<lambda>xs. xs) (rel_content src4) (rel_content dst7))
        = [[''oldDir'', ''f.txt'']] @ [''oldDir''] # []
   \<and> run_loop remove_body [[''oldDir'', ''f.txt'']] dst7 = (None, mid7)
   \<and> (isdir mid7 [''oldDir''] \<and> no_hidden_entries dst7 [[''oldDir'']])
   \<and> lookup mid7 [''oldDir''] = Some (Dir [])
   \<and> (\<exists>t'. remove_body [''oldDir''] mid7 = (None, t'))
   \<and> remove_body [''oldDir''] mid7 = (None, src4)"
proof -
  note t = removal_deepest_first[OF is_shuffle_id ex7_wf refl ex7_create ex7_copy ex7_order ex7_pre]
  from t have "isdir mid7 [''oldDir''] \<and> no_hidden_entries dst7 [[''oldDir'']]
      \<longrightarrow> lookup mid7 [''oldDir''] = Some (Dir [])
          \<and> (\<exists>t'. remove_body [''oldDir''] mid7 = (None, t'))" by (elim conjE)
  with ex7_hyps have "lookup mid7 [''oldDir''] = Some (Dir [])
          \<and> (\<exists>t'. remove_body [''oldDir''] mid7 = (None, t'))" by (rule rev_mp)
  then have e: "lookup mid7 [''oldDir''] = Some (Dir [])"
    and r: "\<exists>t'. remove_body [''oldDir''] mid7 = (None, t')" by simp_all
  show ?thesis
    by (intro conjI is_shuffle_id ex7_wf ex7_create ex7_copy ex7_order ex7_pre ex7_hyps e r ex7_step)
qed

text \<open>
  Claim C5 as stated fails: a directory to remove that holds a hidden entry is not
  empty when its turn comes, \<open>rmdir\<close> is called on it all the same and raises.
\<close>

theorem removal_counterexample:
  "remove_order (classify (\<lambda>xs. xs) (rel_content src4) (rel_content dst4)) = [] @ [''old''] # [[''z.txt'']]
   \<and> run_loop (create_body src4)
        (create_order (classify (\<lambda>xs. xs) (rel_content src4) (rel_content dst4))) dst4 = (None, dst4)
   \<and> run_loop (copy_body src4)
        (copy_order (classify (\<lambda>xs. xs) (rel_content src4) (rel_content dst4))) dst4 = (None, dst4)
   \<and> run_loop remove_body [] dst4 = (None, dst4)
   \<and> isdir dst4 [''old'']
   \<and> lookup dst4 [''old''] = Some (Dir [(''.cache'', File ''x'' (2, 420))])
   \<and> remove_body [''old''] dst4 = rmdir [''old''] dst4
   \<and> rmdir [''old''] dst4 = (Some (OSError DirectoryNotEmpty), dst4)"
proof -
  have 1: "run_loop remove_body [] dst4 = (None, dst4)" by simp
  have 2: "isdir dst4 [''old'']" by code_simp
  have 3: "lookup dst4 [''old''] = Some (Dir [(''.cache'', File ''x'' (2, 420))])" by code_simp
  have 4: "remove_body [''old''] dst4 = rmdir [''old''] dst4" using 2 by (simp add: remove_body_def)
  have 5: "rmdir [''old''] dst4 = (Some (OSError DirectoryNotEmpty), dst4)" by code_simp
  show ?thesis by (intro conjI ex4_order ex4_create ex4_copy 1 2 3 4 5)
qed

end
